theory Spec2Isabelle
  imports Main
begin

section \<open>Strings\<close>

text \<open>
  A Python \<open>str\<close> is a sequence of Unicode code points, so it is a list of naturals
  here (page titles are Cyrillic, beyond the 8-bit \<open>char\<close>). \<open>ascii\<close> embeds an
  ASCII literal of the source.
\<close>

type_synonym str = "nat list"

definition ascii :: "string \<Rightarrow> str" where
  "ascii s = map of_char s"

text \<open>
  \<open>str.strip()\<close> without argument removes leading and trailing white space; the
  code points below are the ones CPython's \<open>str.isspace\<close> accepts.
\<close>

definition isspace :: "nat \<Rightarrow> bool" where
  "isspace c \<longleftrightarrow>
     (9 \<le> c \<and> c \<le> 13) \<or> (28 \<le> c \<and> c \<le> 32) \<or> c = 133 \<or> c = 160 \<or> c = 5760 \<or>
     (8192 \<le> c \<and> c \<le> 8202) \<or> c = 8232 \<or> c = 8233 \<or> c = 8239 \<or> c = 8287 \<or> c = 12288"

definition strip :: "str \<Rightarrow> str" where
  "strip s = rev (dropWhile isspace (rev (dropWhile isspace s)))"

text \<open>\<open>sep.join(xs)\<close>.\<close>

fun join :: "str \<Rightarrow> str list \<Rightarrow> str" where
  "join sep [] = []"
| "join sep [x] = x"
| "join sep (x # y # ys) = x @ sep @ join sep (y # ys)"

text \<open>\<open>str(n)\<close> for a non-negative integer, as the f-string of the page URL formats it.\<close>

fun str_nat :: "nat \<Rightarrow> str" where
  "str_nat n = (if n < 10 then [48 + n] else str_nat (n div 10) @ [48 + n mod 10])"

declare str_nat.simps [simp del]

section \<open>Data model\<close>

text \<open>The dataclass \<open>Film\<close>; \<open>director\<close> has the default \<open>""\<close>.\<close>

record Film =
  title :: str
  original_title :: str
  year :: str
  rating :: str
  genres :: str
  country :: str
  url :: str
  director :: str

text \<open>
  Exceptions are values. \<open>OtherException\<close> stands for any other instance of class
  \<open>Exception\<close> that a library call raises.
\<close>

datatype error =
    ValueError str
  | IndexError
  | KeyError str
  | RequestException str
  | UnicodeEncodeError
  | OtherException str

definition ebind :: "error + 'a \<Rightarrow> ('a \<Rightarrow> error + 'b) \<Rightarrow> error + 'b" where
  "ebind m f = (case m of Inl e \<Rightarrow> Inl e | Inr x \<Rightarrow> f x)"

text \<open>
  An element of the parsed document, as far as the parser reads it: its \<open>.text\<close> and
  its \<open>.attrs\<close> dictionary.
\<close>

record elem =
  elem_text :: str
  elem_attrs :: "str \<rightharpoonup> str"

text \<open>
  A card is the element handed to \<open>_parse_film_card\<close>. The parser only queries it with
  CSS selectors, so a card is modelled by what \<open>select_one\<close> and \<open>select\<close> answer for
  each selector; a query may raise.
\<close>

record card =
  select_one :: "str \<Rightarrow> error + elem option"
  select :: "str \<Rightarrow> error + elem list"

text \<open>\<open>xs[i]\<close> for \<open>i \<ge> 0\<close> and \<open>e['k']\<close>: both raise when the item is missing.\<close>

definition getitem :: "'a list \<Rightarrow> nat \<Rightarrow> error + 'a" where
  "getitem xs i = (if i < length xs then Inr (xs ! i) else Inl IndexError)"

definition getattr :: "elem \<Rightarrow> str \<Rightarrow> error + str" where
  "getattr e k = (case elem_attrs e k of None \<Rightarrow> Inl (KeyError k) | Some v \<Rightarrow> Inr v)"

section \<open>KinoMailParser\<close>

definition base_url :: str where
  "base_url = ascii ''https://kino.mail.ru''"

definition top_url :: str where
  "top_url = base_url @ ascii ''/cinema/top/''"

text \<open>The rating default \<open>"\<^verbatim>\<open>N/D\<close>"\<close> in Cyrillic: U+041D, \<open>/\<close>, U+0414.\<close>

definition rating_default :: str where
  "rating_default = [1053, 47, 1044]"

text \<open>
  \<open>_get_page\<close>. The network is a function from the URL to what
  \<open>requests.get\<close>, \<open>raise_for_status\<close> and \<open>response.text\<close> give: the text, or the
  exception raised. Only \<open>RequestException\<close> is caught. The fixed delay is not modelled.
\<close>

definition get_page :: "(str \<Rightarrow> error + str) \<Rightarrow> str \<Rightarrow> error + str option" where
  "get_page net u =
     (case net u of
        Inr txt \<Rightarrow> Inr (Some txt)
      | Inl (RequestException m) \<Rightarrow> Inr None
      | Inl e \<Rightarrow> Inl e)"

text \<open>
  The positional read of the details row, \<open>details[i].text.strip() if len(details) > i else ""\<close>,
  which the source writes out for \<open>i = 0\<close> (country) and \<open>i = 1\<close> (year).
\<close>

definition detail_text :: "elem list \<Rightarrow> nat \<Rightarrow> error + str" where
  "detail_text details i =
     (if length details > i
      then ebind (getitem details i) (\<lambda>d. Inr (strip (elem_text d)))
      else Inr [])"

text \<open>The body of the \<open>try\<close> block of \<open>_parse_film_card\<close>.\<close>

definition parse_film_body :: "card \<Rightarrow> error + Film option" where
  "parse_film_body c =
     ebind (select_one c (ascii ''span.link__text'')) (\<lambda>title_elem.
     case title_elem of
       None \<Rightarrow> Inr None
     | Some te \<Rightarrow>
         let title' = strip (elem_text te) in
         ebind (select_one c (ascii ''span.text_light_small.color_gray'')) (\<lambda>original_title_elem.
         let original_title' =
               (case original_title_elem of Some oe \<Rightarrow> strip (elem_text oe) | None \<Rightarrow> []) in
         ebind (select c (ascii ''div.margin_top_5 a'')) (\<lambda>details.
         ebind (detail_text details 0) (\<lambda>country'.
         ebind (detail_text details 1) (\<lambda>year'.
         let genres' =
               (if length details > 2
                then join (ascii '', '') (map (\<lambda>g. strip (elem_text g)) (drop 2 details))
                else []) in
         ebind (select_one c (ascii ''span.p-rate-flag__text'')) (\<lambda>rating_elem.
         let rating' =
               (case rating_elem of Some re \<Rightarrow> strip (elem_text re) | None \<Rightarrow> rating_default) in
         ebind (select_one c (ascii ''a.link-holder_itemevent_small'')) (\<lambda>url_elem.
         case url_elem of
           None \<Rightarrow> Inr None
         | Some ue \<Rightarrow>
             if elem_attrs ue (ascii ''href'') = None then Inr None
             else ebind (getattr ue (ascii ''href'')) (\<lambda>href.
                  Inr (Some \<lparr>title = title', original_title = original_title',
                             year = year', rating = rating', genres = genres',
                             country = country', url = base_url @ href,
                             director = []\<rparr>)))))))))"

text \<open>\<open>_parse_film_card\<close>: \<open>except Exception\<close> turns every exception of the body into \<open>None\<close>.\<close>

definition parse_film_card :: "card \<Rightarrow> Film option" where
  "parse_film_card c = (case parse_film_body c of Inl e \<Rightarrow> None | Inr r \<Rightarrow> r)"

text \<open>
  The \<open>for card in cards\<close> loop of \<open>get_top_films\<close>: a parsed film is appended, and the
  loop breaks once the list has \<open>count\<close> films.
\<close>

fun scan_cards :: "card list \<Rightarrow> Film list \<Rightarrow> int \<Rightarrow> Film list" where
  "scan_cards [] films count = films"
| "scan_cards (c # cs) films count =
     (case parse_film_card c of
        None \<Rightarrow> scan_cards cs films count
      | Some film \<Rightarrow>
          (let films' = films @ [film] in
           if int (length films') \<ge> count then films' else scan_cards cs films' count))"

text \<open>The URL of a page: the query string is only added from page 2 on.\<close>

definition page_url :: "nat \<Rightarrow> str" where
  "page_url page = (if page > 1 then top_url @ ascii ''?page='' @ str_nat page else top_url)"

text \<open>
  The \<open>while\<close> loop of \<open>get_top_films\<close>. \<open>net\<close> is the network, \<open>soup\<close> stands for
  \<open>BeautifulSoup(html, 'lxml').select('div.p-itemevent-small')\<close>. The last component
  is the list of the URLs requested so far. The loop need not end, so the result is an
  option: \<open>None\<close> is a run that never returns.
\<close>

partial_function (option) collect ::
  "(str \<Rightarrow> error + str) \<Rightarrow> (str \<Rightarrow> card list) \<Rightarrow> int \<Rightarrow> nat \<Rightarrow> Film list \<Rightarrow> str list
     \<Rightarrow> ((error + Film list) \<times> str list) option" where
  "collect net soup count page films log =
     (if int (length films) < count then
        (let u = page_url page; log' = log @ [u] in
         case get_page net u of
           Inl e \<Rightarrow> Some (Inl e, log')
         | Inr None \<Rightarrow> Some (Inr films, log')
         | Inr (Some html) \<Rightarrow>
             if html = [] then Some (Inr films, log')
             else (let cards = soup html in
                   if cards = [] then Some (Inr films, log')
                   else collect net soup count (page + 1) (scan_cards cards films count) log'))
      else Some (Inr films, log))"

text \<open>The message of the \<open>ValueError\<close> (Cyrillic), as code points.\<close>

definition count_message :: str where
  "count_message =
     [1052, 1086, 1078, 1085, 1086, 32, 1089, 1086, 1073, 1088, 1072, 1090, 1100, 32,
      1086, 1090, 32, 49, 32, 1076, 1086, 32, 49, 53, 48, 32,
      1092, 1080, 1083, 1100, 1084, 1086, 1074]"

text \<open>\<open>get_top_films\<close>: the check of \<open>count\<close>, the loop, and \<open>films[:count]\<close>.\<close>

definition get_top_films ::
  "(str \<Rightarrow> error + str) \<Rightarrow> (str \<Rightarrow> card list) \<Rightarrow> int
     \<Rightarrow> ((error + Film list) \<times> str list) option" where
  "get_top_films net soup count =
     (if count < 1 \<or> count > 150 then Some (Inl (ValueError count_message), [])
      else (case collect net soup count 1 [] [] of
              None \<Rightarrow> None
            | Some (Inl e, log) \<Rightarrow> Some (Inl e, log)
            | Some (Inr films, log) \<Rightarrow> Some (Inr (take (nat count) films), log)))"

section \<open>Structured export\<close>

text \<open>\<open>vars(f)\<close>: the dictionary of a film, its fields in the order of the dataclass.\<close>

definition vars_film :: "Film \<Rightarrow> (str \<times> str) list" where
  "vars_film f =
     [(ascii ''title'', title f), (ascii ''original_title'', original_title f),
      (ascii ''year'', year f), (ascii ''rating'', rating f), (ascii ''genres'', genres f),
      (ascii ''country'', country f), (ascii ''url'', url f), (ascii ''director'', director f)]"

text \<open>
  \<open>json.dump(obj, f, ensure_ascii=False, indent=2)\<close> for a list of dictionaries from
  strings to strings, as the encoder of Python's standard library writes it. A string is
  quoted; the quote, the backslash and the control characters below U+0020 are escaped
  (the short escapes, else a \<open>u\<close> escape with four lower-case hexadecimal digits); every other
  character, so every non-ASCII one, is written as it is.
\<close>

definition hex_digit :: "nat \<Rightarrow> nat" where
  "hex_digit d = (if d < 10 then 48 + d else 87 + d)"

definition escape_char :: "nat \<Rightarrow> str" where
  "escape_char c =
     (if c = 34 then [92, 34]
      else if c = 92 then [92, 92]
      else if c = 10 then [92, 110]
      else if c = 13 then [92, 114]
      else if c = 9 then [92, 116]
      else if c = 8 then [92, 98]
      else if c = 12 then [92, 102]
      else if c < 32 then [92, 117, 48, 48, hex_digit (c div 16), hex_digit (c mod 16)]
      else [c])"

definition encode_basestring :: "str \<Rightarrow> str" where
  "encode_basestring s = [34] @ concat (map escape_char s) @ [34]"

text \<open>
  With \<open>indent=2\<close> an item starts on a line of its own, indented by two spaces per
  nesting level; items are separated by a comma, a key from its value by a colon and a
  space; the empty list and the empty dictionary are \<open>[]\<close> and \<open>{}\<close>.
\<close>

definition newline_indent :: "nat \<Rightarrow> str" where
  "newline_indent level = 10 # replicate (2 * level) 32"

definition dump_item :: "str \<times> str \<Rightarrow> str" where
  "dump_item kv = encode_basestring (fst kv) @ [58, 32] @ encode_basestring (snd kv)"

definition dump_dict :: "nat \<Rightarrow> (str \<times> str) list \<Rightarrow> str" where
  "dump_dict level d =
     (if d = [] then [123, 125]
      else [123] @ newline_indent (level + 1) @
           join (44 # newline_indent (level + 1)) (map dump_item d) @
           newline_indent level @ [125])"

definition dump_list :: "nat \<Rightarrow> (str \<times> str) list list \<Rightarrow> str" where
  "dump_list level ds =
     (if ds = [] then [91, 93]
      else [91] @ newline_indent (level + 1) @
           join (44 # newline_indent (level + 1)) (map (dump_dict (level + 1)) ds) @
           newline_indent level @ [93])"

text \<open>
  The file is opened with \<open>encoding='utf-8'\<close>: writing a surrogate code point
  (U+D800 to U+DFFF) raises \<open>UnicodeEncodeError\<close>. A Python \<open>str\<close> holds no code point
  above U+10FFFF.
\<close>

definition utf8_encodable :: "str \<Rightarrow> bool" where
  "utf8_encodable s = list_all (\<lambda>c. c < 55296 \<or> (57344 \<le> c \<and> c \<le> 1114111)) s"

text \<open>
  \<open>save_to_json\<close>: the text written to the file, or the exception. The encoding of the
  text to bytes and the message printed are not modelled.
\<close>

definition save_to_json :: "Film list \<Rightarrow> error + str" where
  "save_to_json films =
     (let doc = dump_list 0 (map vars_film films)
      in if utf8_encodable doc then Inr doc else Inl UnicodeEncodeError)"

subsection \<open>Reading the document back\<close>

text \<open>
  Modelled from the spec: the sources have no reader; "re-reading" the structured export
  is a JSON reader for the documents it writes, arrays of objects whose members are
  strings. It reads as Python's \<open>json.load\<close> does: white space between tokens is
  skipped, a string ends at the first unescaped quote, an unescaped control character
  or an unknown escape is an error, a \<open>u\<close> escape is a code unit and an escaped surrogate
  pair is one code point. An object is read as the list of its members in document order.
\<close>

datatype token = LBracket | RBracket | LBrace | RBrace | Comma | Colon | TString str

definition hex_val :: "nat \<Rightarrow> nat option" where
  "hex_val c =
     (if 48 \<le> c \<and> c \<le> 57 then Some (c - 48)
      else if 97 \<le> c \<and> c \<le> 102 then Some (c - 87)
      else if 65 \<le> c \<and> c \<le> 70 then Some (c - 55)
      else None)"

definition hex4 :: "str \<Rightarrow> nat option" where
  "hex4 s =
     (case map hex_val s of
        [Some a, Some b, Some c, Some d] \<Rightarrow> Some (((a * 16 + b) * 16 + c) * 16 + d)
      | _ \<Rightarrow> None)"

definition unescape :: "nat \<Rightarrow> nat option" where
  "unescape e =
     (if e = 34 \<or> e = 92 \<or> e = 47 then Some e
      else if e = 98 then Some 8
      else if e = 102 then Some 12
      else if e = 110 then Some 10
      else if e = 114 then Some 13
      else if e = 116 then Some 9
      else None)"

fun scanstring :: "str \<Rightarrow> str \<Rightarrow> (str \<times> str) option" where
  "scanstring acc [] = None"
| "scanstring acc (c # s) =
     (if c = 34 then Some (rev acc, s)
      else if c < 32 then None
      else if c \<noteq> 92 then scanstring (c # acc) s
      else (case s of
              [] \<Rightarrow> None
            | e # s' \<Rightarrow>
                if e \<noteq> 117 then
                  (case unescape e of None \<Rightarrow> None | Some x \<Rightarrow> scanstring (x # acc) s')
                else
                  (case hex4 (take 4 s') of
                     None \<Rightarrow> None
                   | Some uni \<Rightarrow>
                       if 55296 \<le> uni \<and> uni \<le> 56319 \<and> take 2 (drop 4 s') = [92, 117] then
                         (case hex4 (take 4 (drop 6 s')) of
                            None \<Rightarrow> None
                          | Some uni2 \<Rightarrow>
                              if 56320 \<le> uni2 \<and> uni2 \<le> 57343
                              then scanstring
                                     ((65536 + ((uni - 55296) * 1024 + (uni2 - 56320))) # acc)
                                     (drop 10 s')
                              else scanstring (uni # acc) (drop 4 s'))
                       else scanstring (uni # acc) (drop 4 s'))))"

lemma scanstring_length:
  "scanstring acc s = Some (x, rest) \<Longrightarrow> length rest < length s"
proof (induction acc s rule: scanstring.induct)
  case (1 acc)
  then show ?case by simp
next
  case (2 acc c s)
  show ?case
  proof (cases "c = 34")
    case True
    with "2.prems" show ?thesis by simp
  next
    case c34: False
    show ?thesis
    proof (cases "c < 32")
      case True
      with "2.prems" c34 show ?thesis by simp
    next
      case c32: False
      show ?thesis
      proof (cases "c = 92")
        case False
        with "2.prems" c34 c32 have "scanstring (c # acc) s = Some (x, rest)" by simp
        from "2.IH"(1) [OF c34 c32 False this] show ?thesis by simp
      next
        case c92: True
        show ?thesis
        proof (cases s)
          case Nil
          with "2.prems" c34 c32 c92 show ?thesis by simp
        next
          case (Cons e s')
          show ?thesis
          proof (cases "e = 117")
            case False
            with "2.prems" c34 c32 c92 Cons obtain y where y: "unescape e = Some y"
              and r: "scanstring (y # acc) s' = Some (x, rest)"
              by (auto split: option.splits)
            from "2.IH"(2) [OF c34 c32 _ Cons False y r] c92 Cons show ?thesis by simp
          next
            case e117: True
            with "2.prems" c34 c32 c92 Cons obtain uni where uni: "hex4 (take 4 s') = Some uni"
              by (auto split: option.splits)
            show ?thesis
            proof (cases "55296 \<le> uni \<and> uni \<le> 56319 \<and> take 2 (drop 4 s') = [92, 117]")
              case False
              with "2.prems" c34 c32 c92 Cons e117 uni
              have r: "scanstring (uni # acc) (drop 4 s') = Some (x, rest)" by auto
              from "2.IH"(5) [OF c34 c32 _ Cons _ uni False r] c92 e117 Cons show ?thesis by simp
            next
              case hi: True
              with "2.prems" c34 c32 c92 Cons e117 uni obtain uni2 where
                uni2: "hex4 (take 4 (drop 6 s')) = Some uni2"
                by (auto split: option.splits)
              show ?thesis
              proof (cases "56320 \<le> uni2 \<and> uni2 \<le> 57343")
                case True
                with "2.prems" c34 c32 c92 Cons e117 uni hi uni2
                have r: "scanstring ((65536 + ((uni - 55296) * 1024 + (uni2 - 56320))) # acc)
                    (drop 10 s') = Some (x, rest)" by auto
                from "2.IH"(3) [OF c34 c32 _ Cons _ uni hi uni2 True r] c92 e117 Cons
                show ?thesis by simp
              next
                case False
                with "2.prems" c34 c32 c92 Cons e117 uni hi uni2
                have r: "scanstring (uni # acc) (drop 4 s') = Some (x, rest)" by auto
                from "2.IH"(4) [OF c34 c32 _ Cons _ uni hi uni2 False r] c92 e117 Cons
                show ?thesis by simp
              qed
            qed
          qed
        qed
      qed
    qed
  qed
qed

definition is_ws :: "nat \<Rightarrow> bool" where
  "is_ws c \<longleftrightarrow> c = 32 \<or> c = 9 \<or> c = 10 \<or> c = 13"

definition punct :: "nat \<Rightarrow> token option" where
  "punct c =
     (if c = 91 then Some LBracket else if c = 93 then Some RBracket
      else if c = 123 then Some LBrace else if c = 125 then Some RBrace
      else if c = 44 then Some Comma else if c = 58 then Some Colon
      else None)"

function lex :: "str \<Rightarrow> token list option" where
  "lex [] = Some []"
| "lex (c # s) =
     (if is_ws c then lex s
      else if c = 34 then
        (case scanstring [] s of
           None \<Rightarrow> None
         | Some (x, rest) \<Rightarrow> map_option (Cons (TString x)) (lex rest))
      else (case punct c of
              None \<Rightarrow> None
            | Some t \<Rightarrow> map_option (Cons t) (lex s)))"
  by pat_completeness auto
termination
  by (relation "measure length") (auto dest: scanstring_length)

fun parse_members :: "token list \<Rightarrow> ((str \<times> str) list \<times> token list) option" where
  "parse_members (TString k # Colon # TString v # Comma # ts) =
     (case parse_members ts of None \<Rightarrow> None | Some (ms, r) \<Rightarrow> Some ((k, v) # ms, r))"
| "parse_members (TString k # Colon # TString v # RBrace # ts) = Some ([(k, v)], ts)"
| "parse_members ts = None"

fun parse_object :: "token list \<Rightarrow> ((str \<times> str) list \<times> token list) option" where
  "parse_object (LBrace # RBrace # ts) = Some ([], ts)"
| "parse_object (LBrace # ts) = parse_members ts"
| "parse_object ts = None"

lemma parse_members_length:
  "parse_members ts = Some (ms, r) \<Longrightarrow> length r < length ts"
  by (induction ts arbitrary: ms r rule: parse_members.induct)
     (auto split: option.splits)

lemma parse_object_length:
  "parse_object ts = Some (d, r) \<Longrightarrow> length r < length ts"
  by (induction ts rule: parse_object.induct) (auto dest: parse_members_length)

function parse_elements :: "token list \<Rightarrow> ((str \<times> str) list list \<times> token list) option" where
  "parse_elements ts =
     (case parse_object ts of
        None \<Rightarrow> None
      | Some (d, r) \<Rightarrow>
          (case r of
             Comma # r' \<Rightarrow>
               (case parse_elements r' of None \<Rightarrow> None | Some (ds, r'') \<Rightarrow> Some (d # ds, r''))
           | RBracket # r' \<Rightarrow> Some ([d], r')
           | _ \<Rightarrow> None))"
  by pat_completeness auto
termination
  by (relation "measure length") (auto dest: parse_object_length)

declare parse_elements.simps [simp del]

fun parse_array :: "token list \<Rightarrow> ((str \<times> str) list list \<times> token list) option" where
  "parse_array (LBracket # RBracket # ts) = Some ([], ts)"
| "parse_array (LBracket # ts) = parse_elements ts"
| "parse_array ts = None"

definition json_loads :: "str \<Rightarrow> (str \<times> str) list list option" where
  "json_loads doc =
     (case lex doc of
        None \<Rightarrow> None
      | Some ts \<Rightarrow> (case parse_array ts of Some (ds, []) \<Rightarrow> Some ds | _ \<Rightarrow> None))"

section \<open>Notions used to state the properties\<close>

text \<open>The films of a list of cards: the cards that parse, in card order.\<close>

definition valid_films :: "card list \<Rightarrow> Film list" where
  "valid_films cs = List.map_filter parse_film_card cs"

text \<open>
  A page on which the loop goes on: the request returns a non-empty body with at least
  one card. A page at which the loop breaks: the request fails with a
  \<open>RequestException\<close>, or the body is empty, or it has no card.
\<close>

definition good_page :: "(str \<Rightarrow> error + str) \<Rightarrow> (str \<Rightarrow> card list) \<Rightarrow> nat \<Rightarrow> bool" where
  "good_page net soup p =
     (case net (page_url p) of Inr html \<Rightarrow> html \<noteq> [] \<and> soup html \<noteq> [] | Inl e \<Rightarrow> False)"

definition stop_page :: "(str \<Rightarrow> error + str) \<Rightarrow> (str \<Rightarrow> card list) \<Rightarrow> nat \<Rightarrow> bool" where
  "stop_page net soup p =
     (case net (page_url p) of
        Inr html \<Rightarrow> html = [] \<or> soup html = []
      | Inl (RequestException m) \<Rightarrow> True
      | Inl e \<Rightarrow> False)"

definition page_films :: "(str \<Rightarrow> error + str) \<Rightarrow> (str \<Rightarrow> card list) \<Rightarrow> nat \<Rightarrow> Film list" where
  "page_films net soup p =
     (case net (page_url p) of Inr html \<Rightarrow> valid_films (soup html) | Inl e \<Rightarrow> [])"

text \<open>The films of the \<open>k\<close> pages from page \<open>p\<close> on, in page order, then card order.\<close>

definition films_from ::
  "(str \<Rightarrow> error + str) \<Rightarrow> (str \<Rightarrow> card list) \<Rightarrow> nat \<Rightarrow> nat \<Rightarrow> Film list" where
  "films_from net soup p k = concat (map (page_films net soup) [p..<p + k])"

text \<open>A film that was parsed from a card of a page among the URLs requested.\<close>

definition from_card ::
  "(str \<Rightarrow> error + str) \<Rightarrow> (str \<Rightarrow> card list) \<Rightarrow> str list \<Rightarrow> Film \<Rightarrow> bool" where
  "from_card net soup log f \<longleftrightarrow>
     (\<exists>u html c. u \<in> set log \<and> net u = Inr html \<and> c \<in> set (soup html) \<and>
        parse_film_card c = Some f)"

text \<open>A film whose every field can be encoded in UTF-8.\<close>

definition film_encodable :: "Film \<Rightarrow> bool" where
  "film_encodable f \<longleftrightarrow>
     utf8_encodable (title f) \<and> utf8_encodable (original_title f) \<and> utf8_encodable (year f) \<and>
     utf8_encodable (rating f) \<and> utf8_encodable (genres f) \<and> utf8_encodable (country f) \<and>
     utf8_encodable (url f) \<and> utf8_encodable (director f)"

text \<open>The tokens of the document that \<open>dump_dict\<close> and \<open>dump_list\<close> write.\<close>

fun members_tokens :: "(str \<times> str) list \<Rightarrow> token list" where
  "members_tokens [] = [RBrace]"
| "members_tokens [kv] = [TString (fst kv), Colon, TString (snd kv), RBrace]"
| "members_tokens (kv # kv' # d) =
     [TString (fst kv), Colon, TString (snd kv), Comma] @ members_tokens (kv' # d)"

definition dict_tokens :: "(str \<times> str) list \<Rightarrow> token list" where
  "dict_tokens d = LBrace # members_tokens d"

fun elements_tokens :: "(str \<times> str) list list \<Rightarrow> token list" where
  "elements_tokens [] = [RBracket]"
| "elements_tokens [d] = dict_tokens d @ [RBracket]"
| "elements_tokens (d # d' # ds) = dict_tokens d @ [Comma] @ elements_tokens (d' # ds)"

text \<open>Reading a decimal numeral back, to tell page URLs apart.\<close>

definition int_of_str :: "str \<Rightarrow> nat" where
  "int_of_str s = foldl (\<lambda>a c. 10 * a + (c - 48)) 0 s"

section \<open>Example inputs\<close>

definition text_elem :: "str \<Rightarrow> elem" where
  "text_elem t = \<lparr>elem_text = t, elem_attrs = Map.empty\<rparr>"

definition link_elem :: "str \<Rightarrow> elem" where
  "link_elem h = \<lparr>elem_text = [], elem_attrs = [ascii ''href'' \<mapsto> h]\<rparr>"

text \<open>
  A card with the given title element, details anchors and link element, and neither
  an original title nor a rating.
\<close>

definition mk_card :: "elem option \<Rightarrow> elem list \<Rightarrow> elem option \<Rightarrow> card" where
  "mk_card t ds u =
     \<lparr>select_one = (\<lambda>s. if s = ascii ''span.link__text'' then Inr t
                         else if s = ascii ''a.link-holder_itemevent_small'' then Inr u
                         else Inr None),
      select = (\<lambda>s. if s = ascii ''div.margin_top_5 a'' then Inr ds else Inr [])\<rparr>"

definition film_card :: "str \<Rightarrow> str \<Rightarrow> card" where
  "film_card t h = mk_card (Some (text_elem t)) [] (Some (link_elem h))"

text \<open>A card whose every query raises.\<close>

definition broken_card :: card where
  "broken_card =
     \<lparr>select_one = (\<lambda>s. Inl (OtherException (ascii ''malformed nesting''))),
      select = (\<lambda>s. Inl (OtherException (ascii ''malformed nesting'')))\<rparr>"

text \<open>A film as \<open>film_card\<close> parses.\<close>

definition plain_film :: "str \<Rightarrow> str \<Rightarrow> Film" where
  "plain_film t u =
     \<lparr>title = t, original_title = [], year = [], rating = rating_default, genres = [],
      country = [], url = u, director = []\<rparr>"

text \<open>A document parser that knows five bodies.\<close>

definition demo_soup :: "str \<Rightarrow> card list" where
  "demo_soup html =
     (if html = ascii ''one'' then [film_card (ascii ''A'') (ascii ''/a'')]
      else if html = ascii ''two'' then
        [film_card (ascii ''A'') (ascii ''/a''), broken_card, film_card (ascii ''B'') (ascii ''/b'')]
      else if html = ascii ''blank'' then [film_card (ascii '' '') (ascii ''/c'')]
      else if html = ascii ''untitled'' then [mk_card None [] (Some (link_elem (ascii ''/d'')))]
      else if html = ascii ''absolute'' then
        [film_card (ascii ''X'') (ascii ''https://example.org/x'')]
      else [])"

text \<open>Networks: every page has the same body, but for page \<open>k\<close>.\<close>

definition net_const :: "str \<Rightarrow> str \<Rightarrow> error + str" where
  "net_const html u = Inr html"

definition net_except :: "str \<Rightarrow> nat \<Rightarrow> error + str \<Rightarrow> str \<Rightarrow> error + str" where
  "net_except html k r u = (if u = page_url k then r else Inr html)"

section \<open>Lemmas on strings\<close>

lemma ascii_eq_iff [simp]: "ascii s = ascii t \<longleftrightarrow> s = t"
  unfolding ascii_def by (simp add: inj_map_eq_map inj_def)

lemma ascii_Nil_iff [simp]: "ascii s = [] \<longleftrightarrow> s = []"
  by (simp add: ascii_def)

lemma int_of_str_nat: "int_of_str (str_nat n) = n"
proof (induction n rule: str_nat.induct)
  case (1 n)
  show ?case
  proof (cases "n < 10")
    case True
    then show ?thesis by (subst str_nat.simps) (simp add: int_of_str_def)
  next
    case False
    with 1 have "int_of_str (str_nat (n div 10)) = n div 10" by simp
    with False show ?thesis
      by (subst str_nat.simps) (simp add: int_of_str_def)
  qed
qed

lemma str_nat_eq_iff [simp]: "str_nat m = str_nat n \<longleftrightarrow> m = n"
  by (metis int_of_str_nat)

lemma page_url_eq_iff: "1 \<le> p \<Longrightarrow> 1 \<le> q \<Longrightarrow> page_url p = page_url q \<longleftrightarrow> p = q"
  by (auto simp: page_url_def)

lemma strip_Nil_iff: "strip s = [] \<longleftrightarrow> (\<forall>c\<in>set s. isspace c)"
proof -
  have a: "strip s = [] \<longleftrightarrow> (\<forall>x\<in>set (dropWhile isspace s). isspace x)"
    by (simp add: strip_def dropWhile_eq_Nil_conv)
  have c: "dropWhile isspace s = [] \<longleftrightarrow> (\<forall>x\<in>set s. isspace x)"
    by (simp add: dropWhile_eq_Nil_conv)
  have b: "(\<forall>x\<in>set (dropWhile isspace s). isspace x) \<longleftrightarrow> dropWhile isspace s = []"
  proof
    assume all: "\<forall>x\<in>set (dropWhile isspace s). isspace x"
    show "dropWhile isspace s = []"
    proof (rule ccontr)
      assume ne: "dropWhile isspace s \<noteq> []"
      then have "\<not> isspace (hd (dropWhile isspace s))" by (rule hd_dropWhile)
      moreover from ne have "hd (dropWhile isspace s) \<in> set (dropWhile isspace s)" by simp
      ultimately show False using all by blast
    qed
  next
    assume "dropWhile isspace s = []"
    then show "\<forall>x\<in>set (dropWhile isspace s). isspace x" by (auto dest: set_dropWhileD)
  qed
  show ?thesis
    by (simp only: a b c)
qed

section \<open>Lemmas on the loops\<close>

lemma valid_films_simps:
  "valid_films [] = []"
  "valid_films (c # cs) =
     (case parse_film_card c of None \<Rightarrow> valid_films cs | Some f \<Rightarrow> f # valid_films cs)"
  by (simp_all add: valid_films_def map_filter_simps split: option.splits)

lemma scan_cards_take:
  "int (length films) < count \<Longrightarrow>
   scan_cards cs films count = films @ take (nat count - length films) (valid_films cs)"
proof (induction cs arbitrary: films)
  case Nil
  then show ?case by (simp add: valid_films_simps)
next
  case (Cons c cs)
  show ?case
  proof (cases "parse_film_card c")
    case None
    with Cons show ?thesis by (simp add: valid_films_simps)
  next
    case (Some f)
    show ?thesis
    proof (cases "count \<le> int (length films) + 1")
      case True
      with Cons.prems have "nat count - length films = 1" by linarith
      with Some True show ?thesis by (simp add: valid_films_simps)
    next
      case False
      then have lt: "int (length (films @ [f])) < count" by simp
      from False Cons.prems have "nat count - length films = Suc (nat count - length (films @ [f]))"
        by simp
      with Some False Cons.IH [OF lt] show ?thesis by (simp add: valid_films_simps)
    qed
  qed
qed

lemma upt_add_Suc: "[p..<p + Suc k] = p # [Suc p..<Suc p + k]"
  by (subst upt_rec) (simp del: upt_Suc)

lemma films_from_0: "films_from net soup p 0 = []"
  by (simp add: films_from_def)

lemma films_from_Suc:
  "films_from net soup p (Suc k) = page_films net soup p @ films_from net soup (Suc p) k"
  unfolding films_from_def upt_add_Suc by simp

lemma good_pageD:
  assumes "good_page net soup p"
  obtains html where "get_page net (page_url p) = Inr (Some html)" "net (page_url p) = Inr html"
    "html \<noteq> []" "soup html \<noteq> []" "page_films net soup p = valid_films (soup html)"
  using assms by (auto simp: good_page_def get_page_def page_films_def split: sum.splits)

lemma collect_stop_page:
  assumes "int (length films) < count" "stop_page net soup p"
  shows "collect net soup count p films log = Some (Inr films, log @ [page_url p])"
  using assms
  by (subst collect.simps)
     (auto simp: stop_page_def get_page_def Let_def split: sum.splits error.splits)

lemma collect_full:
  assumes "\<not> int (length films) < count"
  shows "collect net soup count p films log = Some (Inr films, log)"
  using assms by (subst collect.simps) simp

lemma collect_good_page:
  assumes "int (length films) < count" "good_page net soup p"
  shows "collect net soup count p films log =
         collect net soup count (Suc p)
           (films @ take (nat count - length films) (page_films net soup p)) (log @ [page_url p])"
proof -
  from assms(2) obtain html where h: "get_page net (page_url p) = Inr (Some html)"
    "html \<noteq> []" "soup html \<noteq> []" "page_films net soup p = valid_films (soup html)"
    by (rule good_pageD)
  show ?thesis
    by (subst collect.simps) (simp add: assms(1) h Let_def scan_cards_take)
qed

lemma collect_stopped:
  assumes "int (length films + length (films_from net soup p k)) < count"
    and "\<forall>q. p \<le> q \<and> q < p + k \<longrightarrow> good_page net soup q"
    and "stop_page net soup (p + k)"
  shows "collect net soup count p films log =
         Some (Inr (films @ films_from net soup p k), log @ map page_url [p..<p + k + 1])"
  using assms
proof (induction k arbitrary: p films log)
  case 0
  then show ?case by (simp add: collect_stop_page films_from_0)
next
  case (Suc k)
  let ?pf = "page_films net soup p"
  from Suc.prems(1) have lt: "int (length films) < count" by simp
  from Suc.prems(2) have good: "good_page net soup p" by simp
  from Suc.prems(1) have whole: "take (nat count - length films) ?pf = ?pf"
    by (simp add: films_from_Suc)
  have 1: "int (length (films @ ?pf) + length (films_from net soup (Suc p) k)) < count"
    using Suc.prems(1) by (simp add: films_from_Suc)
  have 2: "\<forall>q. Suc p \<le> q \<and> q < Suc p + k \<longrightarrow> good_page net soup q"
    using Suc.prems(2) by simp
  have 3: "stop_page net soup (Suc p + k)"
    using Suc.prems(3) by simp
  have "collect net soup count p films log =
        collect net soup count (Suc p) (films @ ?pf) (log @ [page_url p])"
    using collect_good_page [OF lt good] whole by simp
  also have "\<dots> = Some (Inr ((films @ ?pf) @ films_from net soup (Suc p) k),
                       (log @ [page_url p]) @ map page_url [Suc p..<Suc p + k + 1])"
    by (rule Suc.IH [OF 1 2 3])
  finally show ?case using upt_add_Suc [of p "Suc k"] by (simp add: films_from_Suc del: upt_Suc)
qed

lemma collect_done:
  assumes "int (length films + length (films_from net soup p k)) < count"
    and "count \<le> int (length films + length (films_from net soup p (Suc k)))"
    and "\<forall>q. p \<le> q \<and> q \<le> p + k \<longrightarrow> good_page net soup q"
  shows "collect net soup count p films log =
         Some (Inr (take (nat count) (films @ films_from net soup p (Suc k))),
               log @ map page_url [p..<p + k + 1])"
  using assms
proof (induction k arbitrary: p films log)
  case 0
  let ?pf = "page_films net soup p"
  from "0.prems"(1) have lt: "int (length films) < count" by (simp add: films_from_0)
  from "0.prems"(3) have good: "good_page net soup p" by simp
  from "0.prems"(2) have enough: "count \<le> int (length films + length ?pf)"
    by (simp add: films_from_Suc films_from_0)
  let ?fs = "films @ take (nat count - length films) ?pf"
  from lt enough have full: "\<not> int (length ?fs) < count" by simp
  have "collect net soup count p films log = collect net soup count (Suc p) ?fs (log @ [page_url p])"
    by (rule collect_good_page [OF lt good])
  also have "\<dots> = Some (Inr ?fs, log @ [page_url p])"
    by (rule collect_full [OF full])
  finally show ?case using lt by (simp add: films_from_Suc films_from_0)
next
  case (Suc k)
  let ?pf = "page_films net soup p"
  from Suc.prems(1) have lt: "int (length films) < count" by simp
  from Suc.prems(3) have good: "good_page net soup p" by simp
  from Suc.prems(1) have whole: "take (nat count - length films) ?pf = ?pf"
    by (simp add: films_from_Suc)
  have 1: "int (length (films @ ?pf) + length (films_from net soup (Suc p) k)) < count"
    using Suc.prems(1) by (simp add: films_from_Suc)
  have 2: "count \<le> int (length (films @ ?pf) + length (films_from net soup (Suc p) (Suc k)))"
    using Suc.prems(2) by (simp add: films_from_Suc [of _ _ p])
  have 3: "\<forall>q. Suc p \<le> q \<and> q \<le> Suc p + k \<longrightarrow> good_page net soup q"
    using Suc.prems(3) by simp
  have "collect net soup count p films log =
        collect net soup count (Suc p) (films @ ?pf) (log @ [page_url p])"
    using collect_good_page [OF lt good] whole by simp
  also have "\<dots> = Some (Inr (take (nat count) ((films @ ?pf) @ films_from net soup (Suc p) (Suc k))),
                       (log @ [page_url p]) @ map page_url [Suc p..<Suc p + k + 1])"
    by (rule Suc.IH [OF 1 2 3])
  finally show ?case using upt_add_Suc [of p "Suc k"] by (simp add: films_from_Suc [of _ _ p] del: upt_Suc)
qed

section \<open>Lemmas on the card parser\<close>

lemma detail_text_eq:
  "detail_text ds i = Inr (if i < length ds then strip (elem_text (ds ! i)) else [])"
  by (simp add: detail_text_def ebind_def getitem_def)

lemma parse_film_body_success:
  assumes "select_one c (ascii ''span.link__text'') = Inr (Some te)"
    and "select_one c (ascii ''span.text_light_small.color_gray'') = Inr ot"
    and "select c (ascii ''div.margin_top_5 a'') = Inr ds"
    and "select_one c (ascii ''span.p-rate-flag__text'') = Inr rt"
    and "select_one c (ascii ''a.link-holder_itemevent_small'') = Inr (Some ue)"
    and "elem_attrs ue (ascii ''href'') = Some h"
  shows "parse_film_body c =
     Inr (Some \<lparr>title = strip (elem_text te),
           original_title = (case ot of Some oe \<Rightarrow> strip (elem_text oe) | None \<Rightarrow> []),
           year = (if 1 < length ds then strip (elem_text (ds ! 1)) else []),
           rating = (case rt of Some re \<Rightarrow> strip (elem_text re) | None \<Rightarrow> rating_default),
           genres = (if 2 < length ds
                     then join (ascii '', '') (map (\<lambda>g. strip (elem_text g)) (drop 2 ds)) else []),
           country = (if 0 < length ds then strip (elem_text (ds ! 0)) else []),
           url = base_url @ h, director = []\<rparr>)"
  using assms
  by (simp add: parse_film_body_def ebind_def detail_text_eq getattr_def)

lemma parse_film_body_SomeD:
  assumes "parse_film_body c = Inr (Some f)"
  shows "\<exists>te ot ds rt ue h.
     select_one c (ascii ''span.link__text'') = Inr (Some te) \<and>
     select_one c (ascii ''span.text_light_small.color_gray'') = Inr ot \<and>
     select c (ascii ''div.margin_top_5 a'') = Inr ds \<and>
     select_one c (ascii ''span.p-rate-flag__text'') = Inr rt \<and>
     select_one c (ascii ''a.link-holder_itemevent_small'') = Inr (Some ue) \<and>
     elem_attrs ue (ascii ''href'') = Some h"
proof -
  from assms obtain te where te: "select_one c (ascii ''span.link__text'') = Inr (Some te)"
    by (auto simp: parse_film_body_def ebind_def split: sum.splits option.splits)
  from assms te obtain ot where ot: "select_one c (ascii ''span.text_light_small.color_gray'') = Inr ot"
    by (cases "select_one c (ascii ''span.text_light_small.color_gray'')")
       (auto simp: parse_film_body_def ebind_def)
  from assms te ot obtain ds where ds: "select c (ascii ''div.margin_top_5 a'') = Inr ds"
    by (cases "select c (ascii ''div.margin_top_5 a'')")
       (auto simp: parse_film_body_def ebind_def)
  from assms te ot ds obtain rt where rt: "select_one c (ascii ''span.p-rate-flag__text'') = Inr rt"
    by (cases "select_one c (ascii ''span.p-rate-flag__text'')")
       (auto simp: parse_film_body_def ebind_def detail_text_eq Let_def split: if_splits)
  from assms te ot ds rt obtain ue where ue: "select_one c (ascii ''a.link-holder_itemevent_small'') = Inr (Some ue)"
    by (cases "select_one c (ascii ''a.link-holder_itemevent_small'')")
       (auto simp: parse_film_body_def ebind_def detail_text_eq Let_def split: if_splits option.splits)
  from assms te ot ds rt ue obtain h where h: "elem_attrs ue (ascii ''href'') = Some h"
    by (cases "elem_attrs ue (ascii ''href'')")
       (auto simp: parse_film_body_def ebind_def detail_text_eq Let_def split: if_splits option.splits)
  from te ot ds rt ue h show ?thesis by blast
qed

lemma parse_film_body_InlD:
  assumes "parse_film_body c = Inl e"
  shows "\<exists>s. select_one c s = Inl e \<or> select c s = Inl e"
proof (rule ccontr)
  assume no: "\<nexists>s. select_one c s = Inl e \<or> select c s = Inl e"
  show False
  proof (cases "select_one c (ascii ''span.link__text'')")
    case (Inl a) with assms no show ?thesis by (auto simp: parse_film_body_def ebind_def)
  next
    case te: (Inr te)
    show ?thesis
    proof (cases te)
      case None with assms te show ?thesis by (simp add: parse_film_body_def ebind_def)
    next
      case (Some te')
      note te = te [unfolded Some]
      show ?thesis
      proof (cases "select_one c (ascii ''span.text_light_small.color_gray'')")
        case (Inl a) with assms no te show ?thesis by (auto simp: parse_film_body_def ebind_def)
      next
        case ot: (Inr ot)
        show ?thesis
        proof (cases "select c (ascii ''div.margin_top_5 a'')")
          case (Inl a) with assms no te ot show ?thesis by (auto simp: parse_film_body_def ebind_def)
        next
          case ds: (Inr ds)
          show ?thesis
          proof (cases "select_one c (ascii ''span.p-rate-flag__text'')")
            case (Inl a) with assms no te ot ds show ?thesis
              by (auto simp: parse_film_body_def ebind_def detail_text_eq)
          next
            case rt: (Inr rt)
            show ?thesis
            proof (cases "select_one c (ascii ''a.link-holder_itemevent_small'')")
              case (Inl a) with assms no te ot ds rt show ?thesis
                by (auto simp: parse_film_body_def ebind_def detail_text_eq)
            next
              case ue: (Inr ue)
              with assms te ot ds rt show ?thesis
                by (auto simp: parse_film_body_def ebind_def detail_text_eq getattr_def
                    split: option.splits if_splits)
            qed
          qed
        qed
      qed
    qed
  qed
qed

lemma parse_film_card_SomeD:
  assumes "parse_film_card c = Some f"
  shows "\<exists>te ot ds rt ue h.
     select_one c (ascii ''span.link__text'') = Inr (Some te) \<and>
     select_one c (ascii ''span.text_light_small.color_gray'') = Inr ot \<and>
     select c (ascii ''div.margin_top_5 a'') = Inr ds \<and>
     select_one c (ascii ''span.p-rate-flag__text'') = Inr rt \<and>
     select_one c (ascii ''a.link-holder_itemevent_small'') = Inr (Some ue) \<and>
     elem_attrs ue (ascii ''href'') = Some h \<and>
     f = \<lparr>title = strip (elem_text te),
           original_title = (case ot of Some oe \<Rightarrow> strip (elem_text oe) | None \<Rightarrow> []),
           year = (if 1 < length ds then strip (elem_text (ds ! 1)) else []),
           rating = (case rt of Some re \<Rightarrow> strip (elem_text re) | None \<Rightarrow> rating_default),
           genres = (if 2 < length ds
                     then join (ascii '', '') (map (\<lambda>g. strip (elem_text g)) (drop 2 ds)) else []),
           country = (if 0 < length ds then strip (elem_text (ds ! 0)) else []),
           url = base_url @ h, director = []\<rparr>"
proof -
  from assms have body: "parse_film_body c = Inr (Some f)"
    by (simp add: parse_film_card_def split: sum.splits)
  from parse_film_body_SomeD [OF body] obtain te ot ds rt ue h where
    q: "select_one c (ascii ''span.link__text'') = Inr (Some te)"
      "select_one c (ascii ''span.text_light_small.color_gray'') = Inr ot"
      "select c (ascii ''div.margin_top_5 a'') = Inr ds"
      "select_one c (ascii ''span.p-rate-flag__text'') = Inr rt"
      "select_one c (ascii ''a.link-holder_itemevent_small'') = Inr (Some ue)"
      "elem_attrs ue (ascii ''href'') = Some h"
    by blast
  from parse_film_body_success [OF q] body q show ?thesis by simp
qed

lemma scan_cards_skip:
  "parse_film_card c = None \<Longrightarrow>
   scan_cards (cs @ c # cs') films count = scan_cards (cs @ cs') films count"
  by (induction cs arbitrary: films) (simp_all add: Let_def split: option.splits)

lemma valid_films_skip:
  "parse_film_card c = None \<Longrightarrow> valid_films (cs @ c # cs') = valid_films (cs @ cs')"
  by (induction cs) (simp_all add: valid_films_simps split: option.splits)

section \<open>Lemmas on the films collected\<close>

lemma collect_take:
  assumes "int (length films) < count"
    and "\<forall>q. p \<le> q \<and> q < p + k \<longrightarrow> good_page net soup q"
    and "stop_page net soup (p + k) \<or> count \<le> int (length films + length (films_from net soup p k))"
  shows "\<exists>j\<le>Suc k. collect net soup count p films log =
           Some (Inr (take (nat count) (films @ films_from net soup p k)),
                 log @ map page_url [p..<p + j])"
  using assms
proof (induction k arbitrary: p films log)
  case 0
  then have "stop_page net soup p" by (simp add: films_from_0)
  with "0.prems"(1) have "collect net soup count p films log =
      Some (Inr (take (nat count) (films @ films_from net soup p 0)),
            log @ map page_url [p..<p + Suc 0])"
    by (simp add: collect_stop_page films_from_0)
  then show ?case by blast
next
  case (Suc k)
  let ?pf = "page_films net soup p"
  let ?fs = "films @ take (nat count - length films) ?pf"
  note lt = Suc.prems(1)
  from Suc.prems(2) have good: "good_page net soup p" by simp
  have step: "collect net soup count p films log =
        collect net soup count (Suc p) ?fs (log @ [page_url p])"
    by (rule collect_good_page [OF lt good])
  show ?case
  proof (cases "int (length ?fs) < count")
    case False
    then have enough: "nat count - length films \<le> length ?pf" using lt by simp
    have "take (nat count) (films @ films_from net soup p (Suc k)) = ?fs"
      using lt enough by (simp add: films_from_Suc)
    with step collect_full [OF False] have "collect net soup count p films log =
      Some (Inr (take (nat count) (films @ films_from net soup p (Suc k))),
            log @ map page_url [p..<p + Suc 0])"
      by simp
    moreover have "Suc 0 \<le> Suc (Suc k)" by simp
    ultimately show ?thesis by blast
  next
    case True
    then have short: "int (length films + length ?pf) < count" using lt by (simp split: if_splits)
    then have whole: "?fs = films @ ?pf" by simp
    have 1: "int (length (films @ ?pf)) < count" using short by simp
    have 2: "\<forall>q. Suc p \<le> q \<and> q < Suc p + k \<longrightarrow> good_page net soup q"
      using Suc.prems(2) by simp
    have 3: "stop_page net soup (Suc p + k) \<or>
             count \<le> int (length (films @ ?pf) + length (films_from net soup (Suc p) k))"
      using Suc.prems(3) by (simp add: films_from_Suc add.assoc)
    from Suc.IH [OF 1 2 3, of "log @ [page_url p]"] obtain j where j: "j \<le> Suc k"
      and c: "collect net soup count (Suc p) (films @ ?pf) (log @ [page_url p]) =
         Some (Inr (take (nat count) ((films @ ?pf) @ films_from net soup (Suc p) k)),
               (log @ [page_url p]) @ map page_url [Suc p..<Suc p + j])"
      by blast
    from step whole c have "collect net soup count p films log =
      Some (Inr (take (nat count) (films @ films_from net soup p (Suc k))),
            log @ map page_url [p..<p + Suc j])"
      unfolding upt_add_Suc by (simp add: films_from_Suc)
    with j show ?thesis by (intro exI [of _ "Suc j"]) simp
  qed
qed

lemma get_top_films_take:
  assumes "1 \<le> count" "count \<le> 150"
    and "\<forall>q. 1 \<le> q \<and> q \<le> k \<longrightarrow> good_page net soup q"
    and "stop_page net soup (Suc k) \<or> count \<le> int (length (films_from net soup 1 k))"
  shows "\<exists>j\<le>Suc k. get_top_films net soup count =
           Some (Inr (take (nat count) (films_from net soup 1 k)), map page_url [1..<1 + j])"
proof -
  have 1: "int (length ([]::Film list)) < count" using assms(1) by simp
  have 2: "\<forall>q. 1 \<le> q \<and> q < 1 + k \<longrightarrow> good_page net soup q" using assms(3) by simp
  have 3: "stop_page net soup (1 + k) \<or>
           count \<le> int (length ([]::Film list) + length (films_from net soup 1 k))"
    using assms(4) by simp
  from collect_take [OF 1 2 3, of "[]"] obtain j where "j \<le> Suc k" and
    "collect net soup count 1 [] [] =
       Some (Inr (take (nat count) ([] @ films_from net soup 1 k)), [] @ map page_url [1..<1 + j])"
    by blast
  with assms(1,2) show ?thesis by (intro exI [of _ j]) (simp add: get_top_films_def)
qed

lemma get_top_films_stopped:
  assumes "1 \<le> count" "count \<le> 150"
    and "\<forall>q. 1 \<le> q \<and> q \<le> k \<longrightarrow> good_page net soup q"
    and "int (length (films_from net soup 1 k)) < count"
    and "stop_page net soup (Suc k)"
  shows "get_top_films net soup count =
           Some (Inr (films_from net soup 1 k), map page_url [1..<k + 2])"
proof -
  have 1: "int (length ([]::Film list) + length (films_from net soup 1 k)) < count"
    using assms(4) by simp
  have 2: "\<forall>q. 1 \<le> q \<and> q < 1 + k \<longrightarrow> good_page net soup q" using assms(3) by simp
  have 3: "stop_page net soup (1 + k)" using assms(5) by simp
  have "collect net soup count 1 [] [] =
          Some (Inr ([] @ films_from net soup 1 k), [] @ map page_url [1..<1 + k + 1])"
    by (rule collect_stopped [OF 1 2 3])
  with assms(1,2,4) show ?thesis by (simp add: get_top_films_def)
qed

lemma get_top_films_done:
  assumes "1 \<le> count" "count \<le> 150"
    and "\<forall>q. 1 \<le> q \<and> q \<le> Suc k \<longrightarrow> good_page net soup q"
    and "int (length (films_from net soup 1 k)) < count"
    and "count \<le> int (length (films_from net soup 1 (Suc k)))"
  shows "get_top_films net soup count =
           Some (Inr (take (nat count) (films_from net soup 1 (Suc k))), map page_url [1..<k + 2])"
proof -
  have 1: "int (length ([]::Film list) + length (films_from net soup 1 k)) < count"
    using assms(4) by simp
  have 2: "count \<le> int (length ([]::Film list) + length (films_from net soup 1 (Suc k)))"
    using assms(5) by simp
  have 3: "\<forall>q. 1 \<le> q \<and> q \<le> 1 + k \<longrightarrow> good_page net soup q" using assms(3) by simp
  have "collect net soup count 1 [] [] =
          Some (Inr (take (nat count) ([] @ films_from net soup 1 (Suc k))),
                [] @ map page_url [1..<1 + k + 1])"
    by (rule collect_done [OF 1 2 3])
  with assms(1,2) show ?thesis by (simp add: get_top_films_def)
qed

lemma films_from_cong:
  assumes "\<forall>q. p \<le> q \<and> q < p + k \<longrightarrow> net (page_url q) = net' (page_url q)"
  shows "films_from net soup p k = films_from net' soup p k"
proof -
  have "map (page_films net soup) [p..<p + k] = map (page_films net' soup) [p..<p + k]"
    using assms by (intro map_cong) (auto simp: page_films_def)
  then show ?thesis unfolding films_from_def by (rule arg_cong)
qed

lemma scan_cards_set:
  "f \<in> set (scan_cards cs films count) \<Longrightarrow>
   f \<in> set films \<or> (\<exists>c\<in>set cs. parse_film_card c = Some f)"
proof (induction cs arbitrary: films)
  case Nil
  then show ?case by simp
next
  case (Cons c cs)
  show ?case
  proof (cases "parse_film_card c")
    case None
    with Cons.prems have "f \<in> set (scan_cards cs films count)" by simp
    from Cons.IH [OF this] show ?thesis by auto
  next
    case (Some g)
    show ?thesis
    proof (cases "count \<le> int (length (films @ [g]))")
      case True
      with Cons.prems Some show ?thesis by (auto simp: Let_def)
    next
      case False
      with Cons.prems Some have "f \<in> set (scan_cards cs (films @ [g]) count)"
        by (simp add: Let_def)
      from Cons.IH [OF this] Some show ?thesis by auto
    qed
  qed
qed

lemma collect_origin:
  assumes "collect net soup count p films log = Some r"
  shows "set log \<subseteq> set (snd r) \<and>
         (\<forall>fs. fst r = Inr fs \<longrightarrow> (\<forall>f\<in>set fs. f \<in> set films \<or> from_card net soup (snd r) f))"
proof (rule collect.raw_induct
    [where P = "\<lambda>net soup count p films log r.
       set log \<subseteq> set (snd r) \<and>
       (\<forall>fs. fst r = Inr fs \<longrightarrow> (\<forall>f\<in>set fs. f \<in> set films \<or> from_card net soup (snd r) f))",
     OF _ assms])
  fix coll net soup count p films log r
  assume 1: "\<And>net soup count p films log r. coll net soup count p films log = Some r \<Longrightarrow>
       set log \<subseteq> set (snd r) \<and>
       (\<forall>fs. fst r = Inr fs \<longrightarrow> (\<forall>f\<in>set fs. f \<in> set films \<or> from_card net soup (snd r) f))"
    and 2: "(if int (length films) < count then
        (let u = page_url p; log' = log @ [u] in
         case get_page net u of
           Inl e \<Rightarrow> Some (Inl e, log')
         | Inr None \<Rightarrow> Some (Inr films, log')
         | Inr (Some html) \<Rightarrow>
             if html = [] then Some (Inr films, log')
             else (let cards = soup html in
                   if cards = [] then Some (Inr films, log')
                   else coll net soup count (p + 1) (scan_cards cards films count) log'))
      else Some (Inr films, log)) = Some r"
  show "set log \<subseteq> set (snd r) \<and>
       (\<forall>fs. fst r = Inr fs \<longrightarrow> (\<forall>f\<in>set fs. f \<in> set films \<or> from_card net soup (snd r) f))"
  proof (cases "int (length films) < count")
    case False
    with 2 show ?thesis by auto
  next
    case lt: True
    show ?thesis
    proof (cases "get_page net (page_url p)")
      case (Inl e)
      with 2 lt show ?thesis by (auto simp: Let_def)
    next
      case (Inr ho)
      show ?thesis
      proof (cases ho)
        case None
        with 2 lt Inr show ?thesis by (auto simp: Let_def)
      next
        case (Some html)
        from Inr Some have net: "net (page_url p) = Inr html"
          by (auto simp: get_page_def split: sum.splits error.splits)
        show ?thesis
        proof (cases "html = [] \<or> soup html = []")
          case True
          with 2 lt Inr Some show ?thesis by (auto simp: Let_def split: if_splits)
        next
          case False
          with 2 lt Inr Some
          have "coll net soup count (p + 1) (scan_cards (soup html) films count)
                  (log @ [page_url p]) = Some r"
            by (simp add: Let_def)
          from 1 [OF this]
          have sub: "set (log @ [page_url p]) \<subseteq> set (snd r)"
            and org: "\<forall>fs. fst r = Inr fs \<longrightarrow>
              (\<forall>f\<in>set fs. f \<in> set (scan_cards (soup html) films count) \<or>
                 from_card net soup (snd r) f)"
            by blast+
          from sub have here: "page_url p \<in> set (snd r)" and log: "set log \<subseteq> set (snd r)"
            by auto
          have "\<forall>fs. fst r = Inr fs \<longrightarrow>
              (\<forall>f\<in>set fs. f \<in> set films \<or> from_card net soup (snd r) f)"
          proof (intro allI impI ballI)
            fix fs f assume fs: "fst r = Inr fs" and f: "f \<in> set fs"
            from org fs f
            have "f \<in> set (scan_cards (soup html) films count) \<or> from_card net soup (snd r) f"
              by blast
            then show "f \<in> set films \<or> from_card net soup (snd r) f"
            proof
              assume "f \<in> set (scan_cards (soup html) films count)"
              from scan_cards_set [OF this] net here show ?thesis
                by (auto simp: from_card_def)
            qed simp
          qed
          with log show ?thesis by simp
        qed
      qed
    qed
  qed
qed

lemma get_top_films_origin:
  assumes "get_top_films net soup count = Some (Inr fs, log)" and "f \<in> set fs"
  shows "from_card net soup log f"
proof -
  from assms(1) obtain fs' where c: "collect net soup count 1 [] [] = Some (Inr fs', log)"
    and fs: "fs = take (nat count) fs'"
    by (auto simp: get_top_films_def split: if_splits option.splits sum.splits)
  from assms(2) fs have "f \<in> set fs'" by (auto dest: in_set_takeD)
  with collect_origin [OF c] show ?thesis by auto
qed

section \<open>The example inputs evaluated\<close>

lemma parse_mk_card:
  "parse_film_card (mk_card (Some te) ds (Some (link_elem h))) =
     Some \<lparr>title = strip (elem_text te), original_title = [],
           year = (if 1 < length ds then strip (elem_text (ds ! 1)) else []),
           rating = rating_default,
           genres = (if 2 < length ds
                     then join (ascii '', '') (map (\<lambda>g. strip (elem_text g)) (drop 2 ds)) else []),
           country = (if 0 < length ds then strip (elem_text (ds ! 0)) else []),
           url = base_url @ h, director = []\<rparr>"
  by (simp add: parse_film_card_def parse_film_body_def mk_card_def link_elem_def ebind_def
      detail_text_eq getattr_def)

lemma parse_film_card_example:
  "parse_film_card (film_card t h) = Some (plain_film (strip t) (base_url @ h))"
  by (simp add: film_card_def parse_mk_card plain_film_def text_elem_def)

lemma parse_broken_card: "parse_film_card broken_card = None"
  by (simp add: parse_film_card_def parse_film_body_def broken_card_def ebind_def)

lemma parse_untitled_card: "parse_film_card (mk_card None ds u) = None"
  by (simp add: parse_film_card_def parse_film_body_def mk_card_def ebind_def)

lemma strip_examples:
  "strip (ascii ''A'') = ascii ''A''" "strip (ascii ''B'') = ascii ''B''" "strip (ascii '' '') = []"
  by (simp_all add: strip_def isspace_def ascii_def)

lemma valid_films_demo:
  "valid_films (demo_soup (ascii ''one'')) = [plain_film (ascii ''A'') (base_url @ ascii ''/a'')]"
  "valid_films (demo_soup (ascii ''two'')) =
     [plain_film (ascii ''A'') (base_url @ ascii ''/a''), plain_film (ascii ''B'') (base_url @ ascii ''/b'')]"
  "valid_films (demo_soup (ascii ''blank'')) = [plain_film [] (base_url @ ascii ''/c'')]"
  "valid_films (demo_soup (ascii ''untitled'')) = []"
  by (simp_all add: demo_soup_def valid_films_simps parse_film_card_example parse_broken_card
      parse_untitled_card strip_examples)

lemma demo_soup_empty:
  "demo_soup (ascii ''one'') \<noteq> []" "demo_soup (ascii ''two'') \<noteq> []"
  "demo_soup (ascii ''blank'') \<noteq> []" "demo_soup (ascii ''untitled'') \<noteq> []"
  "demo_soup (ascii ''none'') = []"
  by (simp_all add: demo_soup_def)

lemma parse_broken_body:
  "parse_film_body broken_card = Inl (OtherException (ascii ''malformed nesting''))"
  by (simp add: parse_film_body_def broken_card_def ebind_def)

section \<open>Lemmas on the example networks\<close>

lemma net_const_pages:
  "good_page (net_const h) soup p \<longleftrightarrow> h \<noteq> [] \<and> soup h \<noteq> []"
  "stop_page (net_const h) soup p \<longleftrightarrow> h = [] \<or> soup h = []"
  "page_films (net_const h) soup p = valid_films (soup h)"
  by (simp_all add: good_page_def stop_page_def page_films_def net_const_def)

lemma net_except_at: "net_except h k r (page_url k) = r"
  by (simp add: net_except_def)

lemma net_except_other:
  "1 \<le> p \<Longrightarrow> 1 \<le> k \<Longrightarrow> p \<noteq> k \<Longrightarrow> net_except h k r (page_url p) = Inr h"
  by (simp add: net_except_def page_url_eq_iff)

lemma count_list_page_url:
  assumes "1 \<le> m"
  shows "count_list (map page_url [1..<Suc n]) (page_url m) = (if m \<le> n then 1 else 0)"
proof (induction n)
  case 0
  then show ?case using assms by simp
next
  case (Suc n)
  have "page_url (Suc n) = page_url m \<longleftrightarrow> Suc n = m"
    using assms by (intro page_url_eq_iff) simp_all
  with Suc show ?case by auto
qed

lemma valid_films_append: "valid_films (cs @ cs') = valid_films cs @ valid_films cs'"
  by (induction cs) (simp_all add: valid_films_simps split: option.splits)

lemma scan_cards_stops:
  assumes "int (length films) < count"
    and "count \<le> int (length films + length (valid_films cs))"
  shows "scan_cards (cs @ cs') films count = scan_cards cs films count"
  using assms by (simp add: scan_cards_take valid_films_append)

lemma net_except_pages:
  "1 \<le> p \<Longrightarrow> 1 \<le> k \<Longrightarrow> p \<noteq> k \<Longrightarrow>
     good_page (net_except h k r) soup p \<longleftrightarrow> h \<noteq> [] \<and> soup h \<noteq> []"
  "1 \<le> p \<Longrightarrow> 1 \<le> k \<Longrightarrow> p \<noteq> k \<Longrightarrow>
     page_films (net_except h k r) soup p = valid_films (soup h)"
  by (simp_all add: good_page_def page_films_def net_except_other)

lemma get_page_None_stop: "get_page net u = Inr None \<Longrightarrow> u = page_url p \<Longrightarrow> stop_page net soup p"
  by (auto simp: get_page_def stop_page_def split: sum.splits error.splits)

lemma get_top_films_first_film:
  assumes "h \<noteq> []" and "valid_films (soup h) = f # fs"
  shows "get_top_films (net_const h) soup 1 = Some (Inr [f], [page_url 1])"
proof -
  let ?net = "net_const h"
  from assms(2) have ne: "soup h \<noteq> []" by (auto simp: valid_films_simps)
  have good: "\<forall>q. 1 \<le> q \<and> q \<le> Suc 0 \<longrightarrow> good_page ?net soup q"
    using assms(1) ne by (simp add: net_const_pages)
  have "get_top_films ?net soup 1 =
     Some (Inr (take (nat 1) (films_from ?net soup 1 (Suc 0))), map page_url [1..<0 + 2])"
    using assms(2)
    by (intro get_top_films_done [OF _ _ good])
       (simp_all add: films_from_Suc films_from_0 net_const_pages)
  then show ?thesis
    using assms(2)
    by (simp add: films_from_Suc films_from_0 net_const_pages upt_rec [of "Suc 0"] numeral_2_eq_2)
qed

lemma collect_untitled_diverges:
  "collect (net_const (ascii ''untitled'')) demo_soup 1 p [] log = None"
proof (cases "collect (net_const (ascii ''untitled'')) demo_soup 1 p [] log")
  case None
  then show ?thesis .
next
  case (Some r)
  have "\<not> (net_const (ascii ''untitled'') = net_const (ascii ''untitled'') \<and> demo_soup = demo_soup \<and>
          (1::int) = 1 \<and> ([]::Film list) = [])"
  proof (rule collect.raw_induct
      [where P = "\<lambda>net soup count p films log r.
         \<not> (net = net_const (ascii ''untitled'') \<and> soup = demo_soup \<and> count = 1 \<and> films = [])",
       OF _ Some])
    fix coll net soup count p films log r
    assume IH: "\<And>net soup count p films log r. coll net soup count p films log = Some r \<Longrightarrow>
         \<not> (net = net_const (ascii ''untitled'') \<and> soup = demo_soup \<and> count = 1 \<and> films = [])"
      and body: "(if int (length films) < count then
          (let u = page_url p; log' = log @ [u] in
           case get_page net u of
             Inl e \<Rightarrow> Some (Inl e, log')
           | Inr None \<Rightarrow> Some (Inr films, log')
           | Inr (Some html) \<Rightarrow>
               if html = [] then Some (Inr films, log')
               else (let cards = soup html in
                     if cards = [] then Some (Inr films, log')
                     else coll net soup count (p + 1) (scan_cards cards films count) log'))
        else Some (Inr films, log)) = Some r"
    show "\<not> (net = net_const (ascii ''untitled'') \<and> soup = demo_soup \<and> count = 1 \<and> films = [])"
    proof
      assume a: "net = net_const (ascii ''untitled'') \<and> soup = demo_soup \<and> count = 1 \<and> films = []"
      have "scan_cards (demo_soup (ascii ''untitled'')) [] 1 = []"
        by (simp add: demo_soup_def parse_untitled_card)
      with body a have "coll net soup count (p + 1) [] (log @ [page_url p]) = Some r"
        by (simp add: get_page_def net_const_def demo_soup_empty Let_def)
      from IH [OF this] a show False by simp
    qed
  qed
  then show ?thesis by simp
qed

lemma get_top_films_untitled_diverges:
  "get_top_films (net_const (ascii ''untitled'')) demo_soup 1 = None"
  by (simp add: get_top_films_def collect_untitled_diverges)

lemma valid_films_absolute:
  "valid_films (demo_soup (ascii ''absolute'')) =
     [plain_film (ascii ''X'') (base_url @ ascii ''https://example.org/x'')]"
  by (simp add: demo_soup_def valid_films_simps parse_film_card_example strip_def isspace_def
      ascii_def)

section \<open>Lemmas on the structured export\<close>

lemma hex4_control:
  "c < 32 \<Longrightarrow> hex4 [48, 48, hex_digit (c div 16), hex_digit (c mod 16)] = Some c"
proof -
  assume c: "c < 32"
  have d: "c div 16 < 2" using c by simp
  have m: "c mod 16 < 16" by simp
  have hv: "\<And>d. d < 16 \<Longrightarrow> hex_val (hex_digit d) = Some d"
    by (auto simp: hex_val_def hex_digit_def)
  have "hex_val (hex_digit (c div 16)) = Some (c div 16)" using d by (intro hv) simp
  moreover have "hex_val (hex_digit (c mod 16)) = Some (c mod 16)" using m by (rule hv)
  moreover have "hex_val 48 = Some 0" by (simp add: hex_val_def)
  ultimately show ?thesis by (simp add: hex4_def)
qed

lemma scanstring_escape_char:
  "scanstring acc (escape_char c @ t) = scanstring (c # acc) t"
proof -
  consider "c = 34" | "c = 92" | "c = 10" | "c = 13" | "c = 9" | "c = 8" | "c = 12"
    | "c < 32" "c \<notin> {10, 13, 9, 8, 12}" | "32 \<le> c" "c \<noteq> 34" "c \<noteq> 92"
    by fastforce
  then show ?thesis
  proof cases
    case 8
    then have e: "escape_char c = [92, 117, 48, 48, hex_digit (c div 16), hex_digit (c mod 16)]"
      by (simp add: escape_char_def)
    from 8 show ?thesis by (simp add: e hex4_control)
  next
    case 9
    then show ?thesis by (simp add: escape_char_def)
  qed (simp_all add: escape_char_def unescape_def)
qed

lemma scanstring_escape:
  "scanstring acc (concat (map escape_char s) @ 34 # rest) = Some (rev acc @ s, rest)"
  by (induction s arbitrary: acc) (simp_all add: scanstring_escape_char)

lemma lex_string:
  "lex (encode_basestring s @ rest) = map_option (Cons (TString s)) (lex rest)"
  using scanstring_escape [of "[]" s rest]
  by (simp add: encode_basestring_def is_ws_def)

lemma lex_ws: "\<forall>c\<in>set w. is_ws c \<Longrightarrow> lex (w @ rest) = lex rest"
  by (induction w) simp_all

lemma lex_newline_indent: "lex (newline_indent n @ rest) = lex rest"
  by (rule lex_ws) (auto simp: newline_indent_def is_ws_def)

lemma lex_punct:
  "lex (91 # rest) = map_option (Cons LBracket) (lex rest)"
  "lex (93 # rest) = map_option (Cons RBracket) (lex rest)"
  "lex (123 # rest) = map_option (Cons LBrace) (lex rest)"
  "lex (125 # rest) = map_option (Cons RBrace) (lex rest)"
  "lex (44 # rest) = map_option (Cons Comma) (lex rest)"
  "lex (58 # rest) = map_option (Cons Colon) (lex rest)"
  "lex (32 # rest) = lex rest"
  by (simp_all add: is_ws_def punct_def)

declare lex.simps(2) [simp del]

lemma lex_dump_item:
  "lex (dump_item kv @ rest) =
     map_option ((@) [TString (fst kv), Colon, TString (snd kv)]) (lex rest)"
  by (cases "lex rest") (simp_all add: dump_item_def lex_string lex_punct)

lemma lex_members:
  "d \<noteq> [] \<Longrightarrow>
   lex (join (44 # newline_indent n) (map dump_item d) @ newline_indent m @ 125 # rest) =
     map_option ((@) (members_tokens d)) (lex rest)"
proof (induction d rule: members_tokens.induct)
  case 1
  then show ?case by simp
next
  case (2 kv)
  show ?case
    by (cases "lex rest") (simp_all add: lex_dump_item lex_newline_indent lex_punct)
next
  case (3 kv kv' d)
  then have IH: "lex (join (44 # newline_indent n) (map dump_item (kv' # d)) @
        newline_indent m @ 125 # rest) = map_option ((@) (members_tokens (kv' # d))) (lex rest)"
    by simp
  have "lex (join (44 # newline_indent n) (map dump_item (kv # kv' # d)) @
          newline_indent m @ 125 # rest) =
        lex (dump_item kv @ 44 # newline_indent n @
          (join (44 # newline_indent n) (map dump_item (kv' # d)) @ newline_indent m @ 125 # rest))"
    by simp
  also have "\<dots> = map_option ((@) [TString (fst kv), Colon, TString (snd kv), Comma])
      (map_option ((@) (members_tokens (kv' # d))) (lex rest))"
    unfolding lex_dump_item lex_punct lex_newline_indent IH
    by (cases "lex rest") simp_all
  finally show ?case by (cases "lex rest") simp_all
qed

lemma lex_dump_dict:
  "lex (dump_dict level d @ rest) = map_option ((@) (dict_tokens d)) (lex rest)"
proof (cases "d = []")
  case True
  then show ?thesis
    by (cases "lex rest") (simp_all add: dump_dict_def dict_tokens_def lex_punct)
next
  case False
  then show ?thesis
    using lex_members [OF False, of "level + 1" level rest]
    by (cases "lex rest")
       (simp_all add: dump_dict_def dict_tokens_def lex_punct lex_newline_indent)
qed

lemma lex_elements:
  "ds \<noteq> [] \<Longrightarrow>
   lex (join (44 # newline_indent n) (map (dump_dict l) ds) @ newline_indent m @ 93 # rest) =
     map_option ((@) (elements_tokens ds)) (lex rest)"
proof (induction ds rule: elements_tokens.induct)
  case 1
  then show ?case by simp
next
  case (2 d)
  show ?case
    by (cases "lex rest") (simp_all add: lex_dump_dict lex_newline_indent lex_punct)
next
  case (3 d d' ds)
  then have IH: "lex (join (44 # newline_indent n) (map (dump_dict l) (d' # ds)) @
        newline_indent m @ 93 # rest) = map_option ((@) (elements_tokens (d' # ds))) (lex rest)"
    by simp
  have "lex (join (44 # newline_indent n) (map (dump_dict l) (d # d' # ds)) @
          newline_indent m @ 93 # rest) =
        lex (dump_dict l d @ 44 # newline_indent n @
          (join (44 # newline_indent n) (map (dump_dict l) (d' # ds)) @ newline_indent m @ 93 # rest))"
    by simp
  also have "\<dots> = map_option ((@) (dict_tokens d @ [Comma]))
      (map_option ((@) (elements_tokens (d' # ds))) (lex rest))"
    unfolding lex_dump_dict lex_punct lex_newline_indent IH
    by (simp add: option.map_comp comp_def)
  finally show ?case by (simp add: option.map_comp comp_def)
qed

lemma lex_dump_list:
  "lex (dump_list level ds) = Some (LBracket # elements_tokens ds)"
proof (cases "ds = []")
  case True
  then show ?thesis by (simp add: dump_list_def lex_punct)
next
  case False
  then show ?thesis
    using lex_elements [OF False, of "level + 1" "level + 1" level "[]"]
    by (simp add: dump_list_def lex_punct lex_newline_indent)
qed

lemma parse_members_tokens:
  "d \<noteq> [] \<Longrightarrow> parse_members (members_tokens d @ ts) = Some (d, ts)"
  by (induction d rule: members_tokens.induct) simp_all

lemma parse_object_tokens: "parse_object (dict_tokens d @ ts) = Some (d, ts)"
proof (cases d)
  case Nil
  then show ?thesis by (simp add: dict_tokens_def)
next
  case (Cons kv d')
  then have "parse_object (dict_tokens d @ ts) = parse_members (members_tokens d @ ts)"
    by (cases d') (simp_all add: dict_tokens_def)
  with Cons show ?thesis by (simp add: parse_members_tokens)
qed

lemma parse_elements_tokens:
  "ds \<noteq> [] \<Longrightarrow> parse_elements (elements_tokens ds @ ts) = Some (ds, ts)"
proof (induction ds rule: elements_tokens.induct)
  case 1
  then show ?case by simp
next
  case (2 d)
  show ?case
    using parse_object_tokens [of d "RBracket # ts"]
    by (subst parse_elements.simps) simp
next
  case (3 d d' ds)
  then have IH: "parse_elements (elements_tokens (d' # ds) @ ts) = Some (d' # ds, ts)" by simp
  show ?case
    using parse_object_tokens [of d "Comma # elements_tokens (d' # ds) @ ts"] IH
    by (subst parse_elements.simps) simp
qed

lemma parse_array_tokens: "parse_array (LBracket # elements_tokens ds) = Some (ds, [])"
proof (cases ds)
  case Nil
  then show ?thesis by simp
next
  case (Cons d ds')
  have "elements_tokens ds = LBrace # tl (elements_tokens ds)"
    using Cons by (cases ds') (simp_all add: dict_tokens_def)
  then have "parse_array (LBracket # elements_tokens ds) = parse_elements (elements_tokens ds)"
    using Cons
    by (cases ds'; cases d rule: members_tokens.cases) (simp_all add: dict_tokens_def)
  with parse_elements_tokens [of ds "[]"] Cons show ?thesis by simp
qed

lemma json_loads_dump_list: "json_loads (dump_list 0 ds) = Some ds"
  by (simp add: json_loads_def lex_dump_list parse_array_tokens)

lemma utf8_encodable_append [simp]:
  "utf8_encodable (xs @ ys) \<longleftrightarrow> utf8_encodable xs \<and> utf8_encodable ys"
  by (simp add: utf8_encodable_def)

lemma utf8_encodable_Cons:
  "utf8_encodable (c # s) \<longleftrightarrow> (c < 55296 \<or> (57344 \<le> c \<and> c \<le> 1114111)) \<and> utf8_encodable s"
  by (simp add: utf8_encodable_def)

lemma utf8_encodable_Nil [simp]: "utf8_encodable []"
  by (simp add: utf8_encodable_def)

lemma utf8_encodable_ascii [simp]: "utf8_encodable (ascii s)"
proof -
  have "\<And>c::char. of_char c < (256::nat)"
    by (metis of_char_mod_256 mod_less_divisor zero_less_numeral)
  then have "\<And>c::char. (of_char c::nat) < 55296" by (rule less_trans) simp
  then show ?thesis by (simp add: utf8_encodable_def ascii_def list_all_iff)
qed


lemma utf8_encodable_escape_char:
  "utf8_encodable (escape_char c) \<longleftrightarrow> utf8_encodable [c]"
proof (cases "c < 32")
  case True
  have "\<And>d. d < 16 \<Longrightarrow> hex_digit d < 128" by (simp add: hex_digit_def)
  then have "hex_digit (c div 16) < 128" "hex_digit (c mod 16) < 128"
    using True by simp_all
  with True show ?thesis by (simp add: escape_char_def utf8_encodable_Cons)
next
  case False
  then show ?thesis by (simp add: escape_char_def utf8_encodable_Cons)
qed

lemma utf8_encodable_escaped:
  "utf8_encodable (concat (map escape_char s)) \<longleftrightarrow> utf8_encodable s"
proof (induction s)
  case Nil
  then show ?case by simp
next
  case (Cons c s)
  have "utf8_encodable (c # s) \<longleftrightarrow> utf8_encodable [c] \<and> utf8_encodable s"
    by (simp add: utf8_encodable_Cons)
  with Cons show ?case by (simp add: utf8_encodable_escape_char)
qed

lemma utf8_encodable_basestring:
  "utf8_encodable (encode_basestring s) \<longleftrightarrow> utf8_encodable s"
  by (simp add: encode_basestring_def utf8_encodable_escaped utf8_encodable_Cons)

lemma utf8_encodable_newline_indent [simp]: "utf8_encodable (newline_indent n)"
  by (simp add: newline_indent_def utf8_encodable_def list_all_iff)

lemma utf8_encodable_join:
  "utf8_encodable sep \<Longrightarrow> utf8_encodable (join sep xs) \<longleftrightarrow> list_all utf8_encodable xs"
  by (induction sep xs rule: join.induct) simp_all

lemma utf8_encodable_dump_item:
  "utf8_encodable (dump_item kv) \<longleftrightarrow> utf8_encodable (fst kv) \<and> utf8_encodable (snd kv)"
  by (simp add: dump_item_def utf8_encodable_basestring utf8_encodable_Cons)

lemma utf8_encodable_dump_dict:
  "utf8_encodable (dump_dict level d) \<longleftrightarrow>
     list_all (\<lambda>kv. utf8_encodable (fst kv) \<and> utf8_encodable (snd kv)) d"
proof (cases "d = []")
  case True
  then show ?thesis by (simp add: dump_dict_def utf8_encodable_Cons)
next
  case False
  have sep: "utf8_encodable (44 # newline_indent (Suc level))"
    by (simp add: utf8_encodable_Cons)
  have "utf8_encodable (join (44 # newline_indent (Suc level)) (map dump_item d)) \<longleftrightarrow>
      list_all (\<lambda>kv. utf8_encodable (fst kv) \<and> utf8_encodable (snd kv)) d"
    unfolding utf8_encodable_join [OF sep]
    by (induction d) (simp_all add: utf8_encodable_dump_item)
  with False show ?thesis
    by (simp add: dump_dict_def utf8_encodable_Cons del: join.simps)
qed

lemma utf8_encodable_dump_list:
  "utf8_encodable (dump_list level ds) \<longleftrightarrow>
     list_all (list_all (\<lambda>kv. utf8_encodable (fst kv) \<and> utf8_encodable (snd kv))) ds"
proof (cases "ds = []")
  case True
  then show ?thesis by (simp add: dump_list_def utf8_encodable_Cons)
next
  case False
  have sep: "utf8_encodable (44 # newline_indent (Suc level))"
    by (simp add: utf8_encodable_Cons)
  have "utf8_encodable (join (44 # newline_indent (Suc level)) (map (dump_dict (Suc level)) ds)) \<longleftrightarrow>
      list_all (list_all (\<lambda>kv. utf8_encodable (fst kv) \<and> utf8_encodable (snd kv))) ds"
    unfolding utf8_encodable_join [OF sep]
    by (induction ds) (simp_all add: utf8_encodable_dump_dict)
  with False show ?thesis
    by (simp add: dump_list_def utf8_encodable_Cons del: join.simps)
qed

lemma vars_film_encodable:
  "list_all (\<lambda>kv. utf8_encodable (fst kv) \<and> utf8_encodable (snd kv)) (vars_film f) \<longleftrightarrow>
     film_encodable f"
  by (simp add: vars_film_def film_encodable_def)

lemma save_to_json_eq:
  "save_to_json films =
     (if list_all film_encodable films then Inr (dump_list 0 (map vars_film films))
      else Inl UnicodeEncodeError)"
proof -
  have "list_all (list_all (\<lambda>kv. utf8_encodable (fst kv) \<and> utf8_encodable (snd kv)))
          (map vars_film films) \<longleftrightarrow> list_all film_encodable films"
    by (induction films) (simp_all add: vars_film_encodable)
  then show ?thesis by (simp add: save_to_json_def utf8_encodable_dump_list)
qed

section \<open>Properties of the collector and the extractor\<close>

text \<open>
  C5: for every count outside \<open>[1,150]\<close>, in particular 0 and 151, \<open>get_top_films\<close>
  raises the \<open>ValueError\<close> of its input check, and it does so with an empty list of
  requested URLs: no page is fetched, whatever the network would have answered.
\<close>

theorem get_top_films_rejects_count:
  "count < 1 \<or> count > 150 \<Longrightarrow>
   get_top_films net soup count = Some (Inl (ValueError count_message), [])"
  by (simp add: get_top_films_def)

theorem get_top_films_rejects_count_witness:
  "((0::int) < 1 \<or> (0::int) > 150) \<and>
   get_top_films (net_const (ascii ''one'')) demo_soup 0 = Some (Inl (ValueError count_message), []) \<and>
   ((151::int) < 1 \<or> (151::int) > 150) \<and>
   get_top_films (net_const (ascii ''one'')) demo_soup 151 = Some (Inl (ValueError count_message), [])"
  using get_top_films_rejects_count [of 0 "net_const (ascii ''one'')" demo_soup]
    get_top_films_rejects_count [of 151 "net_const (ascii ''one'')" demo_soup]
  by simp

text \<open>
  C7: an exception raised while a card is read (here: by any of its queries) is caught
  inside \<open>_parse_film_card\<close>, which returns \<open>None\<close> for that card. The card loop then
  goes on as if the card were not there: the films collected from the page, and the
  films the page has, are the same with the bad card and without it. The exceptions are
  those of class \<open>Exception\<close>, which is what the handler catches.
\<close>

theorem parse_film_card_catches:
  "parse_film_body c = Inl e \<Longrightarrow>
   parse_film_card c = None \<and>
   scan_cards (cs @ c # cs') films count = scan_cards (cs @ cs') films count \<and>
   valid_films (cs @ c # cs') = valid_films (cs @ cs')"
proof -
  assume "parse_film_body c = Inl e"
  then have "parse_film_card c = None" by (simp add: parse_film_card_def)
  then show ?thesis by (simp add: scan_cards_skip valid_films_skip)
qed

theorem parse_film_card_catches_witness:
  "parse_film_body broken_card = Inl (OtherException (ascii ''malformed nesting'')) \<and>
   parse_film_card broken_card = None \<and>
   scan_cards [film_card (ascii ''A'') (ascii ''/a''), broken_card,
               film_card (ascii ''B'') (ascii ''/b'')] [] 5 =
     [plain_film (ascii ''A'') (base_url @ ascii ''/a''),
      plain_film (ascii ''B'') (base_url @ ascii ''/b'')] \<and>
   scan_cards [film_card (ascii ''A'') (ascii ''/a''),
               film_card (ascii ''B'') (ascii ''/b'')] [] 5 =
     [plain_film (ascii ''A'') (base_url @ ascii ''/a''),
      plain_film (ascii ''B'') (base_url @ ascii ''/b'')]"
  using parse_film_card_catches [OF parse_broken_body,
      of "[film_card (ascii ''A'') (ascii ''/a'')]" "[film_card (ascii ''B'') (ascii ''/b'')]" "[]" 5]
  by (simp add: parse_broken_body parse_film_card_example strip_examples)

text \<open>
  C3, as stated, fails: the parser does not look at the value of the \<open>href\<close>. A card
  with a title and an anchor whose \<open>href\<close> is no well-formed link (a space, an unclosed
  bracket) yields a record, whose URL is the base URL followed by that text.
\<close>

theorem parse_film_card_href_counterexample:
  "parse_film_card (film_card (ascii ''Film'') (ascii ''ht tp:/[bad link'')) =
     Some (plain_film (ascii ''Film'') (ascii ''https://kino.mail.ruht tp:/[bad link''))"
  by (simp add: parse_film_card_example strip_def isspace_def base_url_def ascii_def)

text \<open>
  C3, amended: a card without title element, or without URL anchor, or whose URL anchor
  has no \<open>href\<close> attribute, yields nothing. The \<open>href\<close> value itself is not checked:
  a card that has the title element and the anchor with an \<open>href\<close>, and whose queries
  raise nothing, yields a record for every \<open>href\<close> value, and the record's URL is the base
  URL followed by that value.
\<close>

theorem parse_film_card_required:
  "(select_one c (ascii ''span.link__text'') = Inr None \<or>
    select_one c (ascii ''a.link-holder_itemevent_small'') = Inr None \<or>
    (\<exists>ue. select_one c (ascii ''a.link-holder_itemevent_small'') = Inr (Some ue) \<and>
          elem_attrs ue (ascii ''href'') = None)
    \<longrightarrow> parse_film_card c = None) \<and>
   (\<forall>te ot ds rt ue h.
      select_one c (ascii ''span.link__text'') = Inr (Some te) \<and>
      select_one c (ascii ''span.text_light_small.color_gray'') = Inr ot \<and>
      select c (ascii ''div.margin_top_5 a'') = Inr ds \<and>
      select_one c (ascii ''span.p-rate-flag__text'') = Inr rt \<and>
      select_one c (ascii ''a.link-holder_itemevent_small'') = Inr (Some ue) \<and>
      elem_attrs ue (ascii ''href'') = Some h
      \<longrightarrow> (\<exists>f. parse_film_card c = Some f \<and> url f = base_url @ h))"
proof (intro conjI impI allI)
  assume a: "select_one c (ascii ''span.link__text'') = Inr None \<or>
    select_one c (ascii ''a.link-holder_itemevent_small'') = Inr None \<or>
    (\<exists>ue. select_one c (ascii ''a.link-holder_itemevent_small'') = Inr (Some ue) \<and>
          elem_attrs ue (ascii ''href'') = None)"
  show "parse_film_card c = None"
  proof (cases "parse_film_card c")
    case None then show ?thesis .
  next
    case (Some f)
    from parse_film_card_SomeD [OF Some] a show ?thesis by auto
  qed
next
  fix te ot ds rt ue h
  assume "select_one c (ascii ''span.link__text'') = Inr (Some te) \<and>
      select_one c (ascii ''span.text_light_small.color_gray'') = Inr ot \<and>
      select c (ascii ''div.margin_top_5 a'') = Inr ds \<and>
      select_one c (ascii ''span.p-rate-flag__text'') = Inr rt \<and>
      select_one c (ascii ''a.link-holder_itemevent_small'') = Inr (Some ue) \<and>
      elem_attrs ue (ascii ''href'') = Some h"
  then have "parse_film_body c = Inr (Some \<lparr>title = strip (elem_text te),
           original_title = (case ot of Some oe \<Rightarrow> strip (elem_text oe) | None \<Rightarrow> []),
           year = (if 1 < length ds then strip (elem_text (ds ! 1)) else []),
           rating = (case rt of Some re \<Rightarrow> strip (elem_text re) | None \<Rightarrow> rating_default),
           genres = (if 2 < length ds
                     then join (ascii '', '') (map (\<lambda>g. strip (elem_text g)) (drop 2 ds)) else []),
           country = (if 0 < length ds then strip (elem_text (ds ! 0)) else []),
           url = base_url @ h, director = []\<rparr>)"
    by (intro parse_film_body_success) (elim conjE, assumption)+
  then show "\<exists>f. parse_film_card c = Some f \<and> url f = base_url @ h"
    by (simp add: parse_film_card_def)
qed

theorem parse_film_card_required_witness:
  "select_one (mk_card None [] (Some (link_elem (ascii ''/d'')))) (ascii ''span.link__text'') = Inr None \<and>
   parse_film_card (mk_card None [] (Some (link_elem (ascii ''/d'')))) = None \<and>
   select_one (mk_card (Some (text_elem (ascii ''T''))) [] None)
     (ascii ''a.link-holder_itemevent_small'') = Inr None \<and>
   parse_film_card (mk_card (Some (text_elem (ascii ''T''))) [] None) = None \<and>
   select_one (mk_card (Some (text_elem (ascii ''T''))) [] (Some (text_elem (ascii ''more''))))
     (ascii ''a.link-holder_itemevent_small'') = Inr (Some (text_elem (ascii ''more''))) \<and>
   elem_attrs (text_elem (ascii ''more'')) (ascii ''href'') = None \<and>
   parse_film_card (mk_card (Some (text_elem (ascii ''T''))) [] (Some (text_elem (ascii ''more'')))) = None \<and>
   (\<exists>f. parse_film_card (film_card (ascii ''T'') (ascii ''ht tp:/[bad link'')) = Some f \<and>
        url f = base_url @ ascii ''ht tp:/[bad link'')"
  using parse_film_card_required [of "mk_card None [] (Some (link_elem (ascii ''/d'')))"]
    parse_film_card_required [of "mk_card (Some (text_elem (ascii ''T''))) [] None"]
    parse_film_card_required [of "mk_card (Some (text_elem (ascii ''T''))) [] (Some (text_elem (ascii ''more'')))"]
    parse_film_card_required [of "film_card (ascii ''T'') (ascii ''ht tp:/[bad link'')"]
  by (simp add: mk_card_def film_card_def text_elem_def link_elem_def)

text \<open>
  C4, as stated, fails: a details row with exactly two anchors need not give a non-empty
  country and year. The fields are the stripped texts of the anchors, and an anchor
  with blank or empty text gives the empty string.
\<close>

theorem parse_film_card_details_counterexample:
  "parse_film_card (mk_card (Some (text_elem (ascii ''T'')))
       [text_elem (ascii '' ''), text_elem []] (Some (link_elem (ascii ''/f'')))) =
     Some \<lparr>title = ascii ''T'', original_title = [], year = [], rating = rating_default,
           genres = [], country = [], url = base_url @ ascii ''/f'', director = []\<rparr>"
  by (simp add: parse_mk_card text_elem_def strip_def isspace_def ascii_def)

text \<open>
  C4, amended: a positional read beyond the anchors gives the empty string and raises
  nothing. In every record parsed from a card, country is the stripped text of anchor 0,
  year that of anchor 1 and genres the stripped texts of the anchors from 2 on joined with
  a comma and a space, each empty when the row is too short. With exactly two anchors
  genres is empty, and country and year are non-empty exactly when their anchor's text has
  a character that is not white space. The only exceptions of the \<open>try\<close> block are those
  its queries raise: no read of the details row raises \<open>IndexError\<close>.
\<close>

theorem parse_film_card_details:
  "(\<forall>i. length details \<le> i \<longrightarrow> detail_text details i = Inr []) \<and>
   (\<forall>f. parse_film_card c = Some f \<longrightarrow>
      (\<exists>ds. select c (ascii ''div.margin_top_5 a'') = Inr ds \<and>
         country f = (if 0 < length ds then strip (elem_text (ds ! 0)) else []) \<and>
         year f = (if 1 < length ds then strip (elem_text (ds ! 1)) else []) \<and>
         genres f = (if 2 < length ds
                     then join (ascii '', '') (map (\<lambda>g. strip (elem_text g)) (drop 2 ds))
                     else []) \<and>
         (length ds = 2 \<longrightarrow>
            genres f = [] \<and>
            (country f \<noteq> [] \<longleftrightarrow> (\<exists>x\<in>set (elem_text (ds ! 0)). \<not> isspace x)) \<and>
            (year f \<noteq> [] \<longleftrightarrow> (\<exists>x\<in>set (elem_text (ds ! 1)). \<not> isspace x))))) \<and>
   (\<forall>e. parse_film_body c = Inl e \<longrightarrow> (\<exists>s. select_one c s = Inl e \<or> select c s = Inl e))"
proof (intro conjI allI impI)
  fix i assume "length details \<le> i"
  then show "detail_text details i = Inr []" by (simp add: detail_text_eq)
next
  fix f assume "parse_film_card c = Some f"
  from parse_film_card_SomeD [OF this] obtain te ot ds rt ue h where
    "select_one c (ascii ''span.link__text'') = Inr (Some te)"
    and "select_one c (ascii ''span.text_light_small.color_gray'') = Inr ot"
    and ds: "select c (ascii ''div.margin_top_5 a'') = Inr ds"
    and "select_one c (ascii ''span.p-rate-flag__text'') = Inr rt"
    and "select_one c (ascii ''a.link-holder_itemevent_small'') = Inr (Some ue)"
    and "elem_attrs ue (ascii ''href'') = Some h"
    and f: "f = \<lparr>title = strip (elem_text te),
           original_title = (case ot of Some oe \<Rightarrow> strip (elem_text oe) | None \<Rightarrow> []),
           year = (if 1 < length ds then strip (elem_text (ds ! 1)) else []),
           rating = (case rt of Some re \<Rightarrow> strip (elem_text re) | None \<Rightarrow> rating_default),
           genres = (if 2 < length ds
                     then join (ascii '', '') (map (\<lambda>g. strip (elem_text g)) (drop 2 ds)) else []),
           country = (if 0 < length ds then strip (elem_text (ds ! 0)) else []),
           url = base_url @ h, director = []\<rparr>"
    by (elim exE conjE) (rule that)
  show "\<exists>ds. select c (ascii ''div.margin_top_5 a'') = Inr ds \<and>
         country f = (if 0 < length ds then strip (elem_text (ds ! 0)) else []) \<and>
         year f = (if 1 < length ds then strip (elem_text (ds ! 1)) else []) \<and>
         genres f = (if 2 < length ds
                     then join (ascii '', '') (map (\<lambda>g. strip (elem_text g)) (drop 2 ds))
                     else []) \<and>
         (length ds = 2 \<longrightarrow>
            genres f = [] \<and>
            (country f \<noteq> [] \<longleftrightarrow> (\<exists>x\<in>set (elem_text (ds ! 0)). \<not> isspace x)) \<and>
            (year f \<noteq> [] \<longleftrightarrow> (\<exists>x\<in>set (elem_text (ds ! 1)). \<not> isspace x)))"
    using ds f by (intro exI [of _ ds]) (simp add: strip_Nil_iff)
next
  fix e assume "parse_film_body c = Inl e"
  then show "\<exists>s. select_one c s = Inl e \<or> select c s = Inl e" by (rule parse_film_body_InlD)
qed

theorem parse_film_card_details_witness:
  "detail_text [text_elem (ascii ''Russia''), text_elem (ascii ''2020'')] 2 = Inr [] \<and>
   parse_film_card (mk_card (Some (text_elem (ascii ''T'')))
       [text_elem (ascii ''Russia''), text_elem (ascii ''2020'')] (Some (link_elem (ascii ''/f'')))) =
     Some \<lparr>title = ascii ''T'', original_title = [], year = ascii ''2020'', rating = rating_default,
           genres = [], country = ascii ''Russia'', url = base_url @ ascii ''/f'', director = []\<rparr> \<and>
   (\<exists>s. select_one broken_card s = Inl (OtherException (ascii ''malformed nesting'')) \<or>
        select broken_card s = Inl (OtherException (ascii ''malformed nesting'')))"
  using parse_film_card_details [of "[text_elem (ascii ''Russia''), text_elem (ascii ''2020'')]"
      "mk_card (Some (text_elem (ascii ''T'')))
       [text_elem (ascii ''Russia''), text_elem (ascii ''2020'')] (Some (link_elem (ascii ''/f'')))"]
    parse_film_card_details [of "[]" broken_card] parse_broken_body
  by (simp add: parse_mk_card text_elem_def strip_def isspace_def ascii_def)

text \<open>
  C1, as stated, fails: the loop also ends at a page whose body is empty or has no card,
  which is no fetch failure. Below no request fails, pages 1 and 3 hold two valid cards,
  page 2 has a body without cards, and the request for 2 films returns one film and
  never asks for page 3. And a run need not return at all: on a site whose every page
  has a card without title, no card parses and the loop goes on for ever (the value
  \<open>None\<close> of the model).
\<close>

theorem get_top_films_gap_counterexample:
  "net_except (ascii ''one'') 2 (Inr (ascii ''none'')) (page_url 1) = Inr (ascii ''one'') \<and>
   net_except (ascii ''one'') 2 (Inr (ascii ''none'')) (page_url 2) = Inr (ascii ''none'') \<and>
   net_except (ascii ''one'') 2 (Inr (ascii ''none'')) (page_url 3) = Inr (ascii ''one'') \<and>
   films_from (net_except (ascii ''one'') 2 (Inr (ascii ''none''))) demo_soup 1 3 =
     [plain_film (ascii ''A'') (base_url @ ascii ''/a''),
      plain_film (ascii ''A'') (base_url @ ascii ''/a'')] \<and>
   get_top_films (net_except (ascii ''one'') 2 (Inr (ascii ''none''))) demo_soup 2 =
     Some (Inr [plain_film (ascii ''A'') (base_url @ ascii ''/a'')], [page_url 1, page_url 2]) \<and>
   get_top_films (net_const (ascii ''untitled'')) demo_soup 1 = None"
proof -
  let ?net = "net_except (ascii ''one'') 2 (Inr (ascii ''none''))"
  have p1: "?net (page_url 1) = Inr (ascii ''one'')" and p3: "?net (page_url 3) = Inr (ascii ''one'')"
    by (simp_all add: net_except_other)
  have p2: "?net (page_url 2) = Inr (ascii ''none'')" by (simp add: net_except_at)
  have f1: "page_films ?net demo_soup 1 = [plain_film (ascii ''A'') (base_url @ ascii ''/a'')]"
    and f2: "page_films ?net demo_soup 2 = []"
    and f3: "page_films ?net demo_soup 3 = [plain_film (ascii ''A'') (base_url @ ascii ''/a'')]"
    using p1 p2 p3
    by (simp_all add: page_films_def valid_films_demo demo_soup_empty valid_films_simps)
  have "films_from ?net demo_soup 1 3 = films_from ?net demo_soup 1 (Suc (Suc (Suc 0)))"
    by (simp add: numeral_3_eq_3)
  also have "\<dots> = page_films ?net demo_soup 1 @ page_films ?net demo_soup 2 @ page_films ?net demo_soup 3"
    by (simp add: films_from_Suc films_from_0 numeral_2_eq_2 numeral_3_eq_3)
  finally have all: "films_from ?net demo_soup 1 3 =
     [plain_film (ascii ''A'') (base_url @ ascii ''/a''),
      plain_film (ascii ''A'') (base_url @ ascii ''/a'')]"
    using f1 f2 f3 by simp
  have one: "films_from ?net demo_soup 1 (Suc 0) = [plain_film (ascii ''A'') (base_url @ ascii ''/a'')]"
    using f1 by (simp add: films_from_Suc films_from_0)
  have good: "\<forall>q. 1 \<le> q \<and> q \<le> Suc 0 \<longrightarrow> good_page ?net demo_soup q"
    using p1 by (auto simp: good_page_def demo_soup_empty le_Suc_eq)
  have stop: "stop_page ?net demo_soup (Suc (Suc 0))"
    using p2 by (simp add: stop_page_def demo_soup_empty numeral_2_eq_2)
  have "get_top_films ?net demo_soup 2 =
          Some (Inr (films_from ?net demo_soup 1 (Suc 0)), map page_url [1..<Suc 0 + 2])"
    using one by (intro get_top_films_stopped [OF _ _ good _ stop]) simp_all
  then have "get_top_films ?net demo_soup 2 =
     Some (Inr [plain_film (ascii ''A'') (base_url @ ascii ''/a'')], [page_url 1, page_url 2])"
    using one by (simp add: upt_rec [of "Suc 0"] upt_rec [of "Suc (Suc 0)"] numeral_2_eq_2)
  with p1 p2 p3 all get_top_films_untitled_diverges show ?thesis by simp
qed

text \<open>
  C1, amended: for every count \<open>N\<close> in \<open>[1,150]\<close>, when pages \<open>1..k\<close> each return a
  non-empty body with at least one card and either page \<open>k+1\<close> is one at which the loop
  stops (failed fetch, empty body, or no card) or pages \<open>1..k\<close> hold at least \<open>N\<close> cards
  that parse, \<open>get_top_films\<close> returns, and its list is the first \<open>N\<close> of the valid
  records of pages \<open>1..k\<close> in page order, then card order. So its length is at most
  \<open>N\<close>, and exactly \<open>N\<close> when those pages hold at least \<open>N\<close> valid cards. The pages
  requested are \<open>1..j\<close> for some \<open>j \<le> k+1\<close>, each once and in order. The card loop stops
  as soon as the list has \<open>N\<close> records: cards after that point do not change it.
\<close>

theorem get_top_films_collects:
  assumes "1 \<le> count" "count \<le> 150"
    and "\<forall>q\<in>{1..k}. good_page net soup q"
    and "stop_page net soup (Suc k) \<or> count \<le> int (length (films_from net soup 1 k))"
  shows "\<exists>fs j. j \<le> Suc k \<and>
           get_top_films net soup count = Some (Inr fs, map page_url [1..<Suc j]) \<and>
           fs = take (nat count) (films_from net soup 1 k) \<and>
           int (length fs) \<le> count \<and>
           (count \<le> int (length (films_from net soup 1 k)) \<longrightarrow> int (length fs) = count) \<and>
           (\<forall>cs cs' films.
              int (length films) < count \<and> count \<le> int (length films + length (valid_films cs))
              \<longrightarrow> scan_cards (cs @ cs') films count = scan_cards cs films count)"
proof -
  have good: "\<forall>q. 1 \<le> q \<and> q \<le> k \<longrightarrow> good_page net soup q" using assms(3) by simp
  from get_top_films_take [OF assms(1,2) good assms(4)] obtain j where j: "j \<le> Suc k"
    and r: "get_top_films net soup count =
       Some (Inr (take (nat count) (films_from net soup 1 k)), map page_url [1..<1 + j])"
    by blast
  let ?fs = "take (nat count) (films_from net soup 1 k)"
  have len: "int (length ?fs) \<le> count" using assms(1) by simp
  have full: "count \<le> int (length (films_from net soup 1 k)) \<longrightarrow> int (length ?fs) = count"
    using assms(1) by simp
  have stops: "\<forall>cs cs' films.
              int (length films) < count \<and> count \<le> int (length films + length (valid_films cs))
              \<longrightarrow> scan_cards (cs @ cs') films count = scan_cards cs films count"
    by (simp add: scan_cards_stops)
  from j r len full stops show ?thesis
    by (intro exI [of _ ?fs] exI [of _ j]) simp
qed

theorem get_top_films_collects_witness:
  "good_page (net_const (ascii ''two'')) demo_soup 1 \<and>
   good_page (net_const (ascii ''two'')) demo_soup 2 \<and>
   films_from (net_const (ascii ''two'')) demo_soup 1 2 =
     [plain_film (ascii ''A'') (base_url @ ascii ''/a''),
      plain_film (ascii ''B'') (base_url @ ascii ''/b''),
      plain_film (ascii ''A'') (base_url @ ascii ''/a''),
      plain_film (ascii ''B'') (base_url @ ascii ''/b'')] \<and>
   (\<exists>j. j \<le> 3 \<and> get_top_films (net_const (ascii ''two'')) demo_soup 3 =
     Some (Inr [plain_film (ascii ''A'') (base_url @ ascii ''/a''),
                plain_film (ascii ''B'') (base_url @ ascii ''/b''),
                plain_film (ascii ''A'') (base_url @ ascii ''/a'')],
           map page_url [1..<Suc j]))"
  using get_top_films_collects [of 3 "Suc (Suc 0)" "net_const (ascii ''two'')" demo_soup]
  by (auto simp: numeral_2_eq_2 numeral_3_eq_3 films_from_Suc films_from_0 net_const_pages
      demo_soup_empty valid_films_demo simp del: upt_Suc)

text \<open>
  C2, as stated, fails for the title: the parser tests that the title element exists,
  not that its text is non-empty. A card whose title element holds only a blank gives a
  returned record with the empty title.
\<close>

theorem get_top_films_blank_title_counterexample:
  "get_top_films (net_const (ascii ''blank'')) demo_soup 1 =
     Some (Inr [plain_film [] (base_url @ ascii ''/c'')], [page_url 1]) \<and>
   title (plain_film [] (base_url @ ascii ''/c'')) = []"
  using get_top_films_first_film [of "ascii ''blank''" demo_soup]
  by (simp add: valid_films_demo plain_film_def)

text \<open>
  C2, amended: every record in the list returned by \<open>get_top_films\<close> has a non-empty
  \<open>url\<close>, the empty \<open>director\<close>, and all eight fields (a record of the fixed shape
  \<open>Film\<close>). The record is what \<open>_parse_film_card\<close> gives for a card of a page that
  was requested; its \<open>title\<close> is the stripped text of the title element of that card,
  and is non-empty exactly when that text has a character that is not white space.
\<close>

theorem get_top_films_records:
  assumes "get_top_films net soup count = Some (Inr fs, log)" and "f \<in> set fs"
  shows "url f \<noteq> [] \<and> director f = [] \<and>
         (\<exists>u html c te. u \<in> set log \<and> net u = Inr html \<and> c \<in> set (soup html) \<and>
            parse_film_card c = Some f \<and>
            select_one c (ascii ''span.link__text'') = Inr (Some te) \<and>
            title f = strip (elem_text te) \<and>
            (title f \<noteq> [] \<longleftrightarrow> (\<exists>x\<in>set (elem_text te). \<not> isspace x)))"
proof -
  from get_top_films_origin [OF assms] obtain u html c where
    page: "u \<in> set log" "net u = Inr html" "c \<in> set (soup html)"
    and c: "parse_film_card c = Some f"
    by (auto simp: from_card_def)
  from parse_film_card_SomeD [OF c] obtain te ot ds rt ue h where
    te: "select_one c (ascii ''span.link__text'') = Inr (Some te)"
    and "select_one c (ascii ''span.text_light_small.color_gray'') = Inr ot"
    and "select c (ascii ''div.margin_top_5 a'') = Inr ds"
    and "select_one c (ascii ''span.p-rate-flag__text'') = Inr rt"
    and "select_one c (ascii ''a.link-holder_itemevent_small'') = Inr (Some ue)"
    and "elem_attrs ue (ascii ''href'') = Some h"
    and f: "f = \<lparr>title = strip (elem_text te),
           original_title = (case ot of Some oe \<Rightarrow> strip (elem_text oe) | None \<Rightarrow> []),
           year = (if 1 < length ds then strip (elem_text (ds ! 1)) else []),
           rating = (case rt of Some re \<Rightarrow> strip (elem_text re) | None \<Rightarrow> rating_default),
           genres = (if 2 < length ds
                     then join (ascii '', '') (map (\<lambda>g. strip (elem_text g)) (drop 2 ds)) else []),
           country = (if 0 < length ds then strip (elem_text (ds ! 0)) else []),
           url = base_url @ h, director = []\<rparr>"
    by (elim exE conjE) (rule that)
  have "url f \<noteq> []" using f by (simp add: base_url_def)
  moreover have "director f = []" using f by simp
  moreover have "title f = strip (elem_text te)" using f by simp
  moreover have "title f \<noteq> [] \<longleftrightarrow> (\<exists>x\<in>set (elem_text te). \<not> isspace x)"
    using f by (simp add: strip_Nil_iff)
  ultimately show ?thesis using page c te by blast
qed

theorem get_top_films_records_witness:
  "get_top_films (net_const (ascii ''blank'')) demo_soup 1 =
     Some (Inr [plain_film [] (base_url @ ascii ''/c'')], [page_url 1]) \<and>
   url (plain_film [] (base_url @ ascii ''/c'')) \<noteq> [] \<and>
   director (plain_film [] (base_url @ ascii ''/c'')) = []"
proof -
  have r: "get_top_films (net_const (ascii ''blank'')) demo_soup 1 =
     Some (Inr [plain_film [] (base_url @ ascii ''/c'')], [page_url 1])"
    using get_top_films_first_film [of "ascii ''blank''" demo_soup]
    by (simp add: valid_films_demo)
  from get_top_films_records [OF r, of "plain_film [] (base_url @ ascii ''/c'')"] r
  show ?thesis by simp
qed

text \<open>
  C6: when the loop reaches a page whose fetch fails (\<open>_get_page\<close> returns \<open>None\<close>),
  that is when pages \<open>1..k\<close> went on and gave fewer than \<open>count\<close> records and the
  fetch of page \<open>k+1\<close> fails, \<open>get_top_films\<close> returns exactly the records of pages
  \<open>1..k\<close> (already at most \<open>count\<close>, so the final truncation keeps them all). The
  requests are those of pages \<open>1..k+1\<close>, in order: the failing URL is requested once,
  there is no retry, and nothing is requested after it.
\<close>

theorem get_top_films_fetch_failure:
  assumes "1 \<le> count" "count \<le> 150"
    and "\<forall>q\<in>{1..k}. good_page net soup q"
    and "int (length (films_from net soup 1 k)) < count"
    and "get_page net (page_url (Suc k)) = Inr None"
  shows "get_top_films net soup count =
           Some (Inr (films_from net soup 1 k), map page_url [1..<Suc (Suc k)]) \<and>
         take (nat count) (films_from net soup 1 k) = films_from net soup 1 k \<and>
         count_list (map page_url [1..<Suc (Suc k)]) (page_url (Suc k)) = 1"
proof -
  have good: "\<forall>q. 1 \<le> q \<and> q \<le> k \<longrightarrow> good_page net soup q" using assms(3) by simp
  have stop: "stop_page net soup (Suc k)" using assms(5) by (rule get_page_None_stop) simp
  have "get_top_films net soup count =
          Some (Inr (films_from net soup 1 k), map page_url [1..<k + 2])"
    by (rule get_top_films_stopped [OF assms(1,2) good assms(4) stop])
  moreover have "take (nat count) (films_from net soup 1 k) = films_from net soup 1 k"
    using assms(4) by simp
  moreover have "count_list (map page_url [1..<Suc (Suc k)]) (page_url (Suc k)) = 1"
    using count_list_page_url [of "Suc k" "Suc k"] by simp
  ultimately show ?thesis by simp
qed

theorem get_top_films_fetch_failure_witness:
  "good_page (net_except (ascii ''two'') 2 (Inl (RequestException (ascii ''timeout'')))) demo_soup 1 \<and>
   get_page (net_except (ascii ''two'') 2 (Inl (RequestException (ascii ''timeout'')))) (page_url 2) = Inr None \<and>
   get_top_films (net_except (ascii ''two'') 2 (Inl (RequestException (ascii ''timeout'')))) demo_soup 5 =
     Some (Inr [plain_film (ascii ''A'') (base_url @ ascii ''/a''),
                plain_film (ascii ''B'') (base_url @ ascii ''/b'')],
           [page_url 1, page_url 2]) \<and>
   count_list [page_url 1, page_url 2] (page_url 2) = 1"
  using get_top_films_fetch_failure [of 5 "Suc 0"
      "net_except (ascii ''two'') 2 (Inl (RequestException (ascii ''timeout'')))" demo_soup]
  by (simp add: numeral_2_eq_2 films_from_Suc films_from_0 net_except_pages demo_soup_empty
      valid_films_demo get_page_def net_except_at page_url_eq_iff)

text \<open>
  C9: when the loop reaches a page whose fetch succeeds with the empty string as body,
  it ends there and returns the records accumulated so far; the result (records and
  requests) is the same as if the fetch of that page had failed.
\<close>

theorem get_top_films_empty_body:
  assumes "1 \<le> count" "count \<le> 150"
    and "\<forall>q\<in>{1..k}. good_page net soup q"
    and "int (length (films_from net soup 1 k)) < count"
    and "net (page_url (Suc k)) = Inr []"
  shows "get_top_films net soup count =
           Some (Inr (films_from net soup 1 k), map page_url [1..<Suc (Suc k)]) \<and>
         get_top_films (net(page_url (Suc k) := Inl (RequestException m))) soup count =
           get_top_films net soup count"
proof -
  let ?net' = "net(page_url (Suc k) := Inl (RequestException m))"
  have good: "\<forall>q. 1 \<le> q \<and> q \<le> k \<longrightarrow> good_page net soup q" using assms(3) by simp
  have stop: "stop_page net soup (Suc k)" using assms(5) by (simp add: stop_page_def)
  have same: "\<forall>q. 1 \<le> q \<and> q < 1 + k \<longrightarrow> ?net' (page_url q) = net (page_url q)"
    by (simp add: page_url_eq_iff)
  have films: "films_from ?net' soup 1 k = films_from net soup 1 k"
    by (rule films_from_cong [OF same])
  have good': "\<forall>q. 1 \<le> q \<and> q \<le> k \<longrightarrow> good_page ?net' soup q"
    using good by (simp add: good_page_def page_url_eq_iff)
  have stop': "stop_page ?net' soup (Suc k)" by (simp add: stop_page_def)
  have lt': "int (length (films_from ?net' soup 1 k)) < count" using assms(4) films by simp
  have 1: "get_top_films net soup count =
          Some (Inr (films_from net soup 1 k), map page_url [1..<k + 2])"
    by (rule get_top_films_stopped [OF assms(1,2) good assms(4) stop])
  have 2: "get_top_films ?net' soup count =
          Some (Inr (films_from ?net' soup 1 k), map page_url [1..<k + 2])"
    by (rule get_top_films_stopped [OF assms(1,2) good' lt' stop'])
  from 1 2 films show ?thesis by simp
qed

theorem get_top_films_empty_body_witness:
  "good_page (net_except (ascii ''two'') 2 (Inr [])) demo_soup 1 \<and>
   net_except (ascii ''two'') 2 (Inr []) (page_url 2) = Inr [] \<and>
   get_top_films (net_except (ascii ''two'') 2 (Inr [])) demo_soup 5 =
     Some (Inr [plain_film (ascii ''A'') (base_url @ ascii ''/a''),
                plain_film (ascii ''B'') (base_url @ ascii ''/b'')],
           [page_url 1, page_url 2]) \<and>
   get_top_films ((net_except (ascii ''two'') 2 (Inr []))
       (page_url 2 := Inl (RequestException (ascii ''timeout'')))) demo_soup 5 =
     Some (Inr [plain_film (ascii ''A'') (base_url @ ascii ''/a''),
                plain_film (ascii ''B'') (base_url @ ascii ''/b'')],
           [page_url 1, page_url 2])"
  using get_top_films_empty_body [of 5 "Suc 0" "net_except (ascii ''two'') 2 (Inr [])" demo_soup
      "ascii ''timeout''"]
  by (simp add: numeral_2_eq_2 films_from_Suc films_from_0 net_except_pages demo_soup_empty
      valid_films_demo net_except_at page_url_eq_iff)

text \<open>
  C10: every record returned by \<open>get_top_films\<close> is what \<open>_parse_film_card\<close> gives
  for a card of a page that was requested, and its \<open>url\<close> is the base URL
  \<open>https://kino.mail.ru\<close> followed by the \<open>href\<close> value of the URL anchor of that
  card, whatever that value is; so it always starts with the base URL, also when the
  \<open>href\<close> is an absolute URL itself.
\<close>

theorem get_top_films_url:
  assumes "get_top_films net soup count = Some (Inr fs, log)" and "f \<in> set fs"
  shows "\<exists>u html c ue h. u \<in> set log \<and> net u = Inr html \<and> c \<in> set (soup html) \<and>
            parse_film_card c = Some f \<and>
            select_one c (ascii ''a.link-holder_itemevent_small'') = Inr (Some ue) \<and>
            elem_attrs ue (ascii ''href'') = Some h \<and>
            url f = ascii ''https://kino.mail.ru'' @ h \<and>
            take (length (ascii ''https://kino.mail.ru'')) (url f) = ascii ''https://kino.mail.ru''"
proof -
  from get_top_films_origin [OF assms] obtain u html c where
    page: "u \<in> set log" "net u = Inr html" "c \<in> set (soup html)"
    and c: "parse_film_card c = Some f"
    by (auto simp: from_card_def)
  from parse_film_card_SomeD [OF c] obtain te ot ds rt ue h where
    "select_one c (ascii ''span.link__text'') = Inr (Some te)"
    and "select_one c (ascii ''span.text_light_small.color_gray'') = Inr ot"
    and "select c (ascii ''div.margin_top_5 a'') = Inr ds"
    and "select_one c (ascii ''span.p-rate-flag__text'') = Inr rt"
    and ue: "select_one c (ascii ''a.link-holder_itemevent_small'') = Inr (Some ue)"
    and h: "elem_attrs ue (ascii ''href'') = Some h"
    and f: "f = \<lparr>title = strip (elem_text te),
           original_title = (case ot of Some oe \<Rightarrow> strip (elem_text oe) | None \<Rightarrow> []),
           year = (if 1 < length ds then strip (elem_text (ds ! 1)) else []),
           rating = (case rt of Some re \<Rightarrow> strip (elem_text re) | None \<Rightarrow> rating_default),
           genres = (if 2 < length ds
                     then join (ascii '', '') (map (\<lambda>g. strip (elem_text g)) (drop 2 ds)) else []),
           country = (if 0 < length ds then strip (elem_text (ds ! 0)) else []),
           url = base_url @ h, director = []\<rparr>"
    by (elim exE conjE) (rule that)
  have "url f = ascii ''https://kino.mail.ru'' @ h" using f by (simp add: base_url_def)
  then have "url f = ascii ''https://kino.mail.ru'' @ h \<and>
    take (length (ascii ''https://kino.mail.ru'')) (url f) = ascii ''https://kino.mail.ru''"
    by simp
  with page c ue h show ?thesis by blast
qed

theorem get_top_films_url_witness:
  "get_top_films (net_const (ascii ''absolute'')) demo_soup 1 =
     Some (Inr [plain_film (ascii ''X'') (ascii ''https://kino.mail.ruhttps://example.org/x'')],
           [page_url 1]) \<and>
   take (length (ascii ''https://kino.mail.ru''))
     (url (plain_film (ascii ''X'') (ascii ''https://kino.mail.ruhttps://example.org/x''))) =
     ascii ''https://kino.mail.ru''"
proof -
  have r: "get_top_films (net_const (ascii ''absolute'')) demo_soup 1 =
     Some (Inr [plain_film (ascii ''X'') (ascii ''https://kino.mail.ruhttps://example.org/x'')],
           [page_url 1])"
  proof -
    have eq: "base_url @ ascii ''https://example.org/x'' =
        ascii ''https://kino.mail.ruhttps://example.org/x''"
      by (simp add: base_url_def ascii_def)
    have "get_top_films (net_const (ascii ''absolute'')) demo_soup 1 =
       Some (Inr [plain_film (ascii ''X'') (base_url @ ascii ''https://example.org/x'')],
             [page_url 1])"
      by (rule get_top_films_first_film [of "ascii ''absolute''" demo_soup, OF _ valid_films_absolute])
         simp
    then show ?thesis by (simp only: eq)
  qed
  from get_top_films_url [OF r,
      of "plain_film (ascii ''X'') (ascii ''https://kino.mail.ruhttps://example.org/x'')"] r
  show ?thesis by auto
qed

text \<open>
  C8, as stated, fails: not every list of film records can be exported. The file is
  written in UTF-8, and a record with a surrogate code point in a field (here the title
  U+D800) makes \<open>save_to_json\<close> raise \<open>UnicodeEncodeError\<close>: there is no document to
  read back.
\<close>

theorem save_to_json_surrogate_counterexample:
  "save_to_json [plain_film [55296] (ascii ''https://kino.mail.ru/f'')] = Inl UnicodeEncodeError"
  by (simp add: save_to_json_eq film_encodable_def plain_film_def utf8_encodable_def)

text \<open>
  C8, amended: for every list of \<open>N\<close> film records whose fields can be encoded in
  UTF-8 (no surrogate code point), \<open>save_to_json\<close> writes a document, and reading it
  back yields exactly \<open>N\<close> objects with the field names and string values of the
  records, in order. For any other list the export raises \<open>UnicodeEncodeError\<close>.
  Non-ASCII characters are written as they are, not escaped.
\<close>

theorem save_to_json_roundtrip:
  "(list_all film_encodable films \<longrightarrow>
      (\<exists>doc. save_to_json films = Inr doc \<and>
         json_loads doc = Some (map vars_film films) \<and>
         length (map vars_film films) = length films)) \<and>
   (\<not> list_all film_encodable films \<longrightarrow> save_to_json films = Inl UnicodeEncodeError) \<and>
   (\<forall>c. 128 \<le> c \<longrightarrow> escape_char c = [c])"
  by (simp add: save_to_json_eq json_loads_dump_list escape_char_def)

theorem save_to_json_roundtrip_witness:
  "film_encodable (plain_film [1050, 1080, 1085, 1086] (ascii ''https://kino.mail.ru/f'')) \<and>
   (\<exists>doc. save_to_json [plain_film [1050, 1080, 1085, 1086] (ascii ''https://kino.mail.ru/f'')] = Inr doc \<and>
      json_loads doc =
        Some [[(ascii ''title'', [1050, 1080, 1085, 1086]), (ascii ''original_title'', []),
               (ascii ''year'', []), (ascii ''rating'', [1053, 47, 1044]), (ascii ''genres'', []),
               (ascii ''country'', []), (ascii ''url'', ascii ''https://kino.mail.ru/f''),
               (ascii ''director'', [])]]) \<and>
   save_to_json [plain_film [55296] (ascii ''https://kino.mail.ru/f'')] = Inl UnicodeEncodeError \<and>
   escape_char 1050 = [1050]"
  using save_to_json_roundtrip [of "[plain_film [1050, 1080, 1085, 1086] (ascii ''https://kino.mail.ru/f'')]"]
    save_to_json_roundtrip [of "[plain_film [55296] (ascii ''https://kino.mail.ru/f'')]"]
  by (simp add: film_encodable_def plain_film_def utf8_encodable_Cons vars_film_def
      rating_default_def)

end
